theory Spec2Isabelle
  imports Complex_Main "HOL-Library.Log_Nat" "HOL-Library.Char_ord" "HOL-Library.List_Lexorder"
begin

section \<open>Python numerics\<close>

text \<open>
  The indexer computes its estimates and its percentage with Python's true division
  \<^verbatim>\<open>a / b\<close> on integers and a float multiplication, then truncates with \<^verbatim>\<open>int(...)\<close>.
  Both operations are correctly rounded binary64 operations, so the model rounds the exact
  rational result to 53 significant bits, ties to even. Values are rationals; the exponent
  range is not bounded (every quantity of the program is far inside the binary64 range).
\<close>

definition round_half_even :: "rat \<Rightarrow> int" where
  "round_half_even x =
     (let f = \<lfloor>x\<rfloor>; d = x - of_int f
      in if d < 1 / 2 then f else if 1 / 2 < d then f + 1 else if even f then f else f + 1)"

definition binade :: "rat \<Rightarrow> int" where
  \<comment> \<open>for \<open>0 < x\<close>: the exponent \<open>e\<close> with \<open>2 powi e \<le> x < 2 powi (e + 1)\<close>\<close>
  "binade x =
     (let (a, b) = quotient_of x; k = bitlen a - bitlen b
      in if 2 powi k \<le> x then k else k - 1)"

definition round_pos :: "rat \<Rightarrow> rat" where
  "round_pos x = (let u = 2 powi (binade x - 52) in of_int (round_half_even (x / u)) * u)"

definition fl_round :: "rat \<Rightarrow> rat" where
  "fl_round x = (if x = 0 then 0 else if x < 0 then - round_pos (- x) else round_pos x)"

definition py_truediv :: "int \<Rightarrow> int \<Rightarrow> rat" where
  \<comment> \<open>\<^verbatim>\<open>a / b\<close> on Python ints. Every call site has a positive divisor
      (\<^verbatim>\<open>max(1, sample_size)\<close>, or a total guarded by \<^verbatim>\<open><= 0\<close>).\<close>
  "py_truediv a b = fl_round (of_int a / of_int b)"

definition py_float :: "int \<Rightarrow> rat" where
  "py_float n = fl_round (of_int n)"

definition py_fmul :: "rat \<Rightarrow> rat \<Rightarrow> rat" where
  "py_fmul x y = fl_round (x * y)"

definition py_int :: "rat \<Rightarrow> int" where
  \<comment> \<open>\<^verbatim>\<open>int(x)\<close> truncates toward zero\<close>
  "py_int x = (if 0 \<le> x then \<lfloor>x\<rfloor> else \<lceil>x\<rceil>)"

section \<open>Strings and paths\<close>

text \<open>
  A \<^typ>\<open>char\<close> stands for one code point below 256; Python's \<^verbatim>\<open>str\<close> methods are
  modelled on that range.
\<close>

definition startswith :: "string \<Rightarrow> string \<Rightarrow> bool" where
  "startswith s p = (take (length p) s = p)"

definition py_isspace :: "char \<Rightarrow> bool" where
  "py_isspace c =
     (let n = (of_char c :: nat)
      in (9 \<le> n \<and> n \<le> 13) \<or> (28 \<le> n \<and> n \<le> 32) \<or> n = 133 \<or> n = 160)"

definition strip :: "string \<Rightarrow> string" where
  "strip s = rev (dropWhile py_isspace (rev (dropWhile py_isspace s)))"

definition py_lower :: "char \<Rightarrow> char" where
  "py_lower c =
     (let n = (of_char c :: nat)
      in if (65 \<le> n \<and> n \<le> 90) \<or> (192 \<le> n \<and> n \<le> 222 \<and> n \<noteq> 215)
         then char_of (n + 32) else c)"

definition path_join :: "string \<Rightarrow> string \<Rightarrow> string" where
  \<comment> \<open>\<^verbatim>\<open>os.path.join(a, b)\<close> of posixpath\<close>
  "path_join a b =
     (if startswith b ''/'' then b
      else if a = [] \<or> last a = CHR ''/'' then a @ b
      else a @ ''/'' @ b)"

definition splitext_ext :: "string \<Rightarrow> string" where
  \<comment> \<open>\<^verbatim>\<open>os.path.splitext(p)[1]\<close>: from the last dot of the base name, unless only dots
      precede it\<close>
  "splitext_ext p =
     (let base = rev (takeWhile (\<lambda>c. c \<noteq> CHR ''/'') (rev p));
          upto_dot = dropWhile (\<lambda>c. c \<noteq> CHR ''.'') (rev base)
      in if upto_dot = [] then []
         else if list_ex (\<lambda>c. c \<noteq> CHR ''.'') (tl upto_dot)
         then CHR ''.'' # rev (takeWhile (\<lambda>c. c \<noteq> CHR ''.'') (rev base))
         else [])"

section \<open>The filesystem and \<^verbatim>\<open>os.walk\<close>\<close>

datatype os_error = PermissionError | OSError

record stat_result =
  st_size :: int
  st_mtime :: int

datatype file_node = File (fname: string) (fstat: "os_error + stat_result")
  \<comment> \<open>a non-directory entry and what \<^verbatim>\<open>os.stat\<close> answers for it\<close>

datatype fs_dir =
    Dir string "file_node list" "fs_dir list"
  | Unlistable string
  \<comment> \<open>an entry listed among its parent's directories that \<^verbatim>\<open>os.walk\<close> yields nothing
      for: \<^verbatim>\<open>scandir\<close> fails on it (the error is dropped by \<^verbatim>\<open>os.walk\<close>), or it is a
      symbolic link\<close>

fun dir_name :: "fs_dir \<Rightarrow> string" where
  "dir_name (Dir n fs ds) = n"
| "dir_name (Unlistable n) = n"

type_synonym walk_item = "string \<times> string list \<times> file_node list"

fun os_walk :: "(string \<Rightarrow> bool) \<Rightarrow> string \<Rightarrow> fs_dir \<Rightarrow> walk_item list" where
  \<comment> \<open>top-down walk; \<open>keep\<close> is the in-place pruning \<^verbatim>\<open>dirs[:] = dirs_filtered\<close> that every
      caller performs on the yielded list before the walk descends\<close>
  "os_walk keep topdir (Unlistable n) = []"
| "os_walk keep topdir (Dir n fs ds) =
     (topdir, map dir_name ds, fs) #
     concat (map (\<lambda>d. os_walk keep (path_join topdir (dir_name d)) d)
                 (filter (\<lambda>d. keep (dir_name d)) ds))"

definition keep_dir :: "string \<Rightarrow> bool" where
  "keep_dir d = (\<not> startswith d ''.'' \<and> \<not> startswith d ''$'')"

definition visible_file :: "file_node \<Rightarrow> bool" where
  "visible_file f = (\<not> startswith (fname f) ''.'')"

section \<open>The store\<close>

datatype sqlite_error = SqliteError string

record index_entry =
  name :: string
  path :: string
  file_type :: string
  file_size :: int
  modified_date :: int
  \<comment> \<open>the formatted local time has second resolution; the model keeps the seconds\<close>

type_synonym file_row = "int \<times> index_entry"
  \<comment> \<open>the \<^verbatim>\<open>id INTEGER PRIMARY KEY\<close> and the five columns; a table is the list of its rows
      in rowid order\<close>

definition next_id :: "file_row list \<Rightarrow> int" where
  "next_id t = fold max (map fst t) 0 + 1"

definition insert_or_replace :: "index_entry \<Rightarrow> file_row list \<Rightarrow> file_row list" where
  \<comment> \<open>\<^verbatim>\<open>INSERT OR REPLACE\<close> under \<^verbatim>\<open>UNIQUE(path)\<close>: the conflicting row is deleted and the
      new row gets a fresh rowid\<close>
  "insert_or_replace e t = filter (\<lambda>r. path (snd r) \<noteq> path e) t @ [(next_id t, e)]"

section \<open>The indexer\<close>

text \<open>
  \<^verbatim>\<open>FileIndexer\<close> as a state record and its signals as a list that grows at the end. The
  environment of a session is the list of trees found at the roots that \<^verbatim>\<open>_get_drives\<close>
  returns (the name of a root tree is the drive), the moment of a stop request, and the
  write statement at which the store fails, if it does. Paths are joined as on a POSIX
  system. An exception is a value: a function that can raise returns \<open>Inl\<close> of the exception
  and of the state it leaves behind, and an \<^verbatim>\<open>except\<close> clause is a test on that value. File
  names are code points below 256, which the store can always encode.
\<close>

datatype py_exception = OsError os_error | ValueError | OverflowError | Sqlite3Error sqlite_error

definition caught :: "py_exception \<Rightarrow> bool" where
  \<comment> \<open>\<^verbatim>\<open>except (PermissionError, OSError)\<close>: neither \<^verbatim>\<open>ValueError\<close>, \<^verbatim>\<open>OverflowError\<close> nor
      \<^verbatim>\<open>sqlite3.Error\<close> is an \<^verbatim>\<open>OSError\<close>\<close>
  "caught x = (case x of OsError e \<Rightarrow> True | _ \<Rightarrow> False)"

definition fromtimestamp :: "int \<Rightarrow> py_exception + int" where
  \<comment> \<open>\<^verbatim>\<open>datetime.fromtimestamp(t).strftime(...)\<close> on whole seconds, local zone UTC, 64-bit
      \<^verbatim>\<open>time_t\<close>: outside \<^verbatim>\<open>time_t\<close> an \<^verbatim>\<open>OverflowError\<close>, where \<^verbatim>\<open>localtime\<close> fails an \<^verbatim>\<open>OSError\<close>,
      where the year leaves 1..9999 a \<^verbatim>\<open>ValueError\<close>\<close>
  "fromtimestamp t =
     (if t < - 9223372036854775808 \<or> 9223372036854775807 < t then Inl OverflowError
      else if t < - 67768040609740800 \<or> 67768036191676799 < t then Inl (OsError OSError)
      else if t < - 62135510400 \<or> 253402300799 < t then Inl ValueError
      else Inr t)"

datatype message =
    Estimating
  | Estimated int
  | IndexingDrive string
  | Indexed int int
  | Completed int

datatype signal = Progress message int | Finished

record indexer =
  stop_at :: "nat option"
  clock :: nat
  fault :: "(nat \<times> sqlite_error) option"
  statements :: nat
  total_files_estimated :: int
  files_processed :: int
  db :: "file_row list"
  committed :: "file_row list"
  signals :: "signal list"

type_synonym result = "(py_exception \<times> indexer) + indexer"

definition state_of :: "result \<Rightarrow> indexer" where
  "state_of r = (case r of Inl (x, s) \<Rightarrow> s | Inr s \<Rightarrow> s)"

definition and_then :: "result \<Rightarrow> (indexer \<Rightarrow> result) \<Rightarrow> result" where
  "and_then r k = (case r of Inl e \<Rightarrow> Inl e | Inr s \<Rightarrow> k s)"

text \<open>
  \<^verbatim>\<open>self.stopped\<close> is written by another thread (\<^verbatim>\<open>stop()\<close> sets it and nothing resets it).
  The worker only observes it at its reads, so the model counts the reads in \<open>clock\<close> and
  takes the moment of the request as an input: \<open>stop_at = Some t\<close> means that the first
  \<open>t\<close> reads see \<^verbatim>\<open>False\<close> and every later read sees \<^verbatim>\<open>True\<close>; \<open>None\<close> means no request.
  In the same way \<open>statements\<close> counts the write statements sent through the connection
  (every \<^verbatim>\<open>INSERT OR REPLACE\<close> and every \<^verbatim>\<open>commit\<close>), and \<open>fault = Some (n, e)\<close> means that
  statement number \<open>n\<close> raises the \<^verbatim>\<open>sqlite3.Error\<close> \<open>e\<close>; \<open>None\<close> means that the store accepts
  every statement.
\<close>

definition stopped :: "indexer \<Rightarrow> bool" where
  "stopped s = (case stop_at s of None \<Rightarrow> False | Some t \<Rightarrow> t \<le> clock s)"

definition tick :: "indexer \<Rightarrow> indexer" where
  "tick s = s\<lparr>clock := Suc (clock s)\<rparr>"

definition emit :: "signal \<Rightarrow> indexer \<Rightarrow> indexer" where
  "emit e s = s\<lparr>signals := signals s @ [e]\<rparr>"

definition statement :: "(indexer \<Rightarrow> indexer) \<Rightarrow> indexer \<Rightarrow> result" where
  \<comment> \<open>a write statement: it raises where the store fails, and takes effect otherwise\<close>
  "statement effect s =
     (case fault s of
        None \<Rightarrow> Inr ((effect s)\<lparr>statements := Suc (statements s)\<rparr>)
      | Some (n, e) \<Rightarrow>
          if n = statements s then Inl (Sqlite3Error e, s)
          else Inr ((effect s)\<lparr>statements := Suc (statements s)\<rparr>))"

definition execute_insert :: "index_entry \<Rightarrow> indexer \<Rightarrow> result" where
  "execute_insert e = statement (\<lambda>s. s\<lparr>db := insert_or_replace e (db s)\<rparr>)"

definition commit :: "indexer \<Rightarrow> result" where
  "commit = statement (\<lambda>s. s\<lparr>committed := db s\<rparr>)"

definition percentage_of :: "int \<Rightarrow> int \<Rightarrow> int" where
  "percentage_of processed estimate =
     (if estimate \<le> 0 then 0
      else min 99 (py_int (py_fmul (py_truediv processed estimate) (py_float 100))))"

definition get_percentage :: "indexer \<Rightarrow> int" where
  "get_percentage s = percentage_of (files_processed s) (total_files_estimated s)"

fun sample_files :: "walk_item list \<Rightarrow> int \<times> int \<Rightarrow> int \<times> int" where
  \<comment> \<open>the inner loop of \<^verbatim>\<open>_estimate_total_files\<close> on \<open>(sample_size, file_count)\<close>\<close>
  "sample_files [] acc = acc"
| "sample_files ((dirpath, dirs, files) # rest) (sample_size, file_count) =
     (let file_count' = file_count + int (length (filter visible_file files));
          sample_size' = sample_size + 1
      in if sample_size' \<ge> 20 then (sample_size', file_count')
         else sample_files rest (sample_size', file_count'))"

fun sample_drives :: "fs_dir list \<Rightarrow> int \<times> int \<Rightarrow> int \<times> int" where
  "sample_drives [] acc = acc"
| "sample_drives (d # ds) acc =
     (let acc' = sample_files (os_walk keep_dir (dir_name d) d) acc
      in if fst acc' \<ge> 20 then acc' else sample_drives ds acc')"

fun count_dirs :: "walk_item list \<Rightarrow> int \<times> int \<Rightarrow> int \<times> int" where
  \<comment> \<open>the inner loop of \<^verbatim>\<open>_estimate_dir_count\<close> on \<open>(sample_size, dir_count)\<close>\<close>
  "count_dirs [] acc = acc"
| "count_dirs ((dirpath, dirs, files) # rest) (sample_size, dir_count) =
     (let dir_count' = dir_count + int (length (filter keep_dir dirs));
          sample_size' = sample_size + 1
      in if sample_size' \<ge> 10 then (sample_size', dir_count')
         else count_dirs rest (sample_size', dir_count'))"

fun count_drives :: "fs_dir list \<Rightarrow> int \<times> int \<Rightarrow> int \<times> int" where
  "count_drives [] acc = acc"
| "count_drives (d # ds) acc =
     (let acc' = count_dirs (os_walk keep_dir (dir_name d) d) acc
      in if fst acc' \<ge> 10 then acc' else count_drives ds acc')"

definition estimate_dir_count :: "fs_dir list \<Rightarrow> int" where
  "estimate_dir_count drives =
     (let (sample_size, dir_count) = count_drives drives (0, 0)
      in if sample_size > 0
         then (let avg_dirs = py_truediv dir_count (max 1 sample_size)
               in max 100 (py_int (py_fmul avg_dirs (py_float 50))))
         else 1000)"

definition estimated_total :: "fs_dir list \<Rightarrow> int" where
  "estimated_total drives =
     (let (sample_size, file_count) = sample_drives drives (0, 0)
      in if sample_size > 0
         then (let avg_files_per_dir = py_truediv file_count (max 1 sample_size);
                   estimated_dirs = estimate_dir_count drives
               in max 1000 (py_int (py_fmul avg_files_per_dir (py_float estimated_dirs))))
         else 10000)"

definition estimate_total_files :: "fs_dir list \<Rightarrow> indexer \<Rightarrow> indexer" where
  "estimate_total_files drives s =
     (let s' = s\<lparr>total_files_estimated := estimated_total drives\<rparr>
      in emit (Progress (Estimated (total_files_estimated s')) 0) s')"

definition entry_of :: "string \<Rightarrow> string \<Rightarrow> stat_result \<Rightarrow> index_entry" where
  "entry_of dirpath file file_stat =
     \<lparr>name = file, path = path_join dirpath file,
      file_type = map py_lower (splitext_ext file),
      file_size = st_size file_stat, modified_date = st_mtime file_stat\<rparr>"

definition store_file :: "string \<Rightarrow> string \<Rightarrow> stat_result \<Rightarrow> indexer \<Rightarrow> result" where
  \<comment> \<open>the body of the inner \<^verbatim>\<open>try\<close> once \<^verbatim>\<open>os.stat\<close> has answered: the date is formatted, the
      row written, the counter raised, and every 500 files the batch is committed and a
      signal emitted\<close>
  "store_file dirpath file file_stat s =
     (case fromtimestamp (st_mtime file_stat) of
        Inl x \<Rightarrow> Inl (x, s)
      | Inr date \<Rightarrow>
          and_then (execute_insert (entry_of dirpath file file_stat) s)
            (\<lambda>s1. let s2 = s1\<lparr>files_processed := files_processed s1 + 1\<rparr>
                  in if files_processed s2 mod 500 = 0
                     then and_then (commit s2)
                            (\<lambda>s3. Inr (emit (Progress (Indexed (files_processed s3)
                                                      (get_percentage s3))
                                                    (get_percentage s3)) s3))
                     else Inr s2))"

definition try_file :: "string \<Rightarrow> file_node \<Rightarrow> indexer \<Rightarrow> result" where
  \<comment> \<open>the inner \<^verbatim>\<open>try\<close> with its \<^verbatim>\<open>except (PermissionError, OSError): continue\<close>\<close>
  "try_file dirpath f s =
     (case (case fstat f of
              Inl err \<Rightarrow> Inl (OsError err, s)
            | Inr file_stat \<Rightarrow> store_file dirpath (fname f) file_stat s) of
        Inl (x, s') \<Rightarrow> if caught x then Inr s' else Inl (x, s')
      | Inr s' \<Rightarrow> Inr s')"

fun index_files :: "string \<Rightarrow> file_node list \<Rightarrow> indexer \<Rightarrow> result" where
  \<comment> \<open>\<^verbatim>\<open>for file in files\<close>: a read of the flag, then the hidden test, then the \<^verbatim>\<open>try\<close>\<close>
  "index_files dirpath [] s = Inr s"
| "index_files dirpath (f # fs) s =
     (if stopped s then Inr (tick s)
      else if startswith (fname f) ''.'' then index_files dirpath fs (tick s)
      else (case try_file dirpath f (tick s) of
              Inl r \<Rightarrow> Inl r
            | Inr s' \<Rightarrow> index_files dirpath fs s'))"

fun index_dirs :: "walk_item list \<Rightarrow> indexer \<Rightarrow> result" where
  \<comment> \<open>\<^verbatim>\<open>for root, dirs, files in os.walk(drive)\<close>\<close>
  "index_dirs [] s = Inr s"
| "index_dirs ((dirpath, dirs, files) # rest) s =
     (if stopped s then Inr (tick s)
      else (case index_files dirpath files (tick s) of
              Inl r \<Rightarrow> Inl r
            | Inr s' \<Rightarrow> index_dirs rest s'))"

fun index_drives :: "fs_dir list \<Rightarrow> indexer \<Rightarrow> result" where
  \<comment> \<open>\<^verbatim>\<open>for drive in drives\<close>, with the outer \<^verbatim>\<open>try\<close> and its
      \<^verbatim>\<open>except (PermissionError, OSError): continue\<close>\<close>
  "index_drives [] s = Inr s"
| "index_drives (d # ds) s =
     (if stopped s then Inr (tick s)
      else (let s1 = tick s;
                s2 = emit (Progress (IndexingDrive (dir_name d)) (get_percentage s1)) s1
            in case index_dirs (os_walk keep_dir (dir_name d) d) s2 of
                 Inl (x, s') \<Rightarrow> if caught x then index_drives ds s' else Inl (x, s')
               | Inr s' \<Rightarrow> index_drives ds s'))"

definition init_indexer :: "(nat \<times> sqlite_error) option \<Rightarrow> nat option \<Rightarrow> file_row list
    \<Rightarrow> indexer" where
  \<comment> \<open>\<^verbatim>\<open>__init__\<close>, and the connection on a table that exists after
      \<^verbatim>\<open>CREATE TABLE IF NOT EXISTS\<close>\<close>
  "init_indexer failing cancel t =
     \<lparr>stop_at = cancel, clock = 0, fault = failing, statements = 0,
      total_files_estimated = 0, files_processed = 0,
      db = t, committed = t, signals = []\<rparr>"

datatype session = OpenFailed sqlite_error | Aborted py_exception indexer | Ended indexer
  \<comment> \<open>how \<^verbatim>\<open>run\<close> is left: by the exception of the open, by an exception of the walk or of
      the last commit (with the state at that moment), or by its last statement\<close>

definition finish :: "indexer \<Rightarrow> session" where
  \<comment> \<open>what follows the drive loop\<close>
  "finish s =
     (case commit s of
        Inl (x, s') \<Rightarrow> Aborted x s'
      | Inr s1 \<Rightarrow>
          Ended (emit Finished (emit (Progress (Completed (files_processed s1)) 100) s1)))"

definition run :: "sqlite_error + file_row list \<Rightarrow> (nat \<times> sqlite_error) option \<Rightarrow> nat option
    \<Rightarrow> fs_dir list \<Rightarrow> session" where
  \<comment> \<open>\<^verbatim>\<open>FileIndexer.run\<close>. The first argument is what \<^verbatim>\<open>sqlite3.connect(DB_PATH)\<close> and the
      \<^verbatim>\<open>CREATE TABLE IF NOT EXISTS\<close> after it do: they raise, or they give the table; both
      stand outside every \<^verbatim>\<open>try\<close>. No exception that leaves the drive loop is caught
      either.\<close>
  "run store failing cancel env =
     (case store of
        Inl e \<Rightarrow> OpenFailed e
      | Inr t \<Rightarrow>
          (let s0 = init_indexer failing cancel t;
               drives = env;
               s1 = emit (Progress Estimating 0) s0;
               s2 = estimate_total_files drives s1;
               s3 = s2\<lparr>files_processed := 0\<rparr>
           in case index_drives drives s3 of
                Inl (x, s) \<Rightarrow> Aborted x s
              | Inr s4 \<Rightarrow> finish s4))"

section \<open>The search bar\<close>

definition sqlite_lower :: "char \<Rightarrow> char" where
  \<comment> \<open>the case folding of SQLite's \<^verbatim>\<open>LIKE\<close>: ASCII letters only\<close>
  "sqlite_lower c =
     (let n = (of_char c :: nat) in if 65 \<le> n \<and> n \<le> 90 then char_of (n + 32) else c)"

fun like :: "string \<Rightarrow> string \<Rightarrow> bool" where
  \<comment> \<open>\<^verbatim>\<open>text LIKE pattern\<close> with no escape character: \<^verbatim>\<open>%\<close> matches any run of characters,
      \<^verbatim>\<open>_\<close> exactly one, any other character itself up to ASCII case\<close>
  "like [] s = (s = [])"
| "like (p # ps) [] = (p = CHR ''%'' \<and> like ps [])"
| "like (p # ps) (c # cs) =
     (if p = CHR ''%'' then like ps (c # cs) \<or> like (p # ps) cs
      else (p = CHR ''_'' \<or> sqlite_lower p = sqlite_lower c) \<and> like ps cs)"

type_synonym result_row = "string \<times> string \<times> string"

definition select_files :: "sqlite_error + file_row list \<Rightarrow> string
    \<Rightarrow> sqlite_error + result_row list" where
  \<comment> \<open>\<^verbatim>\<open>SELECT name, path, type FROM files WHERE name LIKE ? ORDER BY name LIMIT 100\<close> on what
      the cursor reaches: an error, or the committed table. Names compare as SQLite's
      BINARY collation does; rows of equal name keep the table's order.\<close>
  "select_files store pattern =
     (case store of
        Inl e \<Rightarrow> Inl e
      | Inr t \<Rightarrow>
          Inr (take 100 (sort_key fst
                 (map (\<lambda>r. (name (snd r), path (snd r), file_type (snd r)))
                      (filter (\<lambda>r. like pattern (name (snd r))) t)))))"

datatype status = NoStatus | Found nat | SearchError sqlite_error

record search_bar =
  results_list :: "result_row list"
  results_visible :: bool
  status_label :: status
  executed :: "string list"
  \<comment> \<open>the patterns of the statements sent through \<^verbatim>\<open>self.cursor\<close>, in order\<close>

definition SearchBar_init :: "sqlite_error + file_row list \<Rightarrow> sqlite_error + search_bar" where
  \<comment> \<open>\<^verbatim>\<open>SearchBar.__init__\<close>: the connection is opened here, outside any \<^verbatim>\<open>try\<close>\<close>
  "SearchBar_init store =
     (case store of
        Inl e \<Rightarrow> Inl e
      | Inr t \<Rightarrow> Inr \<lparr>results_list = [], results_visible = False, status_label = NoStatus,
                      executed = []\<rparr>)"

definition search :: "sqlite_error + file_row list \<Rightarrow> string \<Rightarrow> search_bar \<Rightarrow> search_bar" where
  \<comment> \<open>\<^verbatim>\<open>SearchBar.search\<close> on the text of the input field; the first argument is what the
      store answers at the time of the call\<close>
  "search store text_input ui =
     (let query = strip text_input;
          ui1 = ui\<lparr>results_list := []\<rparr>
      in if query = [] then ui1\<lparr>results_visible := False\<rparr>
         else
           (let search_pattern = ''%'' @ query @ ''%'';
                ui2 = ui1\<lparr>executed := executed ui1 @ [search_pattern]\<rparr>
            in case select_files store search_pattern of
                 Inl e \<Rightarrow> ui2\<lparr>status_label := SearchError e, results_visible := True\<rparr>
               | Inr results \<Rightarrow>
                   (let ui3 = ui2\<lparr>results_list := results\<rparr>
                    in if results \<noteq> []
                       then ui3\<lparr>results_visible := True, status_label := Found (length results)\<rparr>
                       else ui3\<lparr>results_visible := False\<rparr>)))"

section \<open>What the specification says, in its own words\<close>

fun ci_prefix :: "string \<Rightarrow> string \<Rightarrow> bool" where
  "ci_prefix [] s = True"
| "ci_prefix (q # qs) [] = False"
| "ci_prefix (q # qs) (c # cs) = (sqlite_lower q = sqlite_lower c \<and> ci_prefix qs cs)"

fun ci_contains :: "string \<Rightarrow> string \<Rightarrow> bool" where
  \<comment> \<open>case-insensitive containment of the fragment within a name\<close>
  "ci_contains q [] = (q = [])"
| "ci_contains q (c # cs) = (ci_prefix q (c # cs) \<or> ci_contains q cs)"

definition spec_percentage :: "int \<Rightarrow> int \<Rightarrow> int" where
  \<comment> \<open>\<open>min(99, floor(processedFiles / estimatedTotalFiles * 100))\<close> in exact arithmetic\<close>
  "spec_percentage processed estimate = min 99 \<lfloor>of_int processed / (of_int estimate :: rat) * 100\<rfloor>"

section \<open>Notions the statements use\<close>

definition readable_at :: "file_node \<Rightarrow> stat_result option" where
  \<comment> \<open>the stat of a file that is not hidden, that \<^verbatim>\<open>os.stat\<close> can read and whose time can be
      formatted\<close>
  "readable_at f =
     (if visible_file f
      then (case fstat f of
              Inl err \<Rightarrow> None
            | Inr file_stat \<Rightarrow>
                (case fromtimestamp (st_mtime file_stat) of
                   Inl x \<Rightarrow> None
                 | Inr date \<Rightarrow> Some file_stat))
      else None)"

definition indexable :: "string \<Rightarrow> file_node list \<Rightarrow> index_entry list" where
  \<comment> \<open>the entries of the readable files of one directory, in listing order\<close>
  "indexable dirpath files =
     concat (map (\<lambda>f. case readable_at f of
                         None \<Rightarrow> []
                       | Some file_stat \<Rightarrow> [entry_of dirpath (fname f) file_stat])
                 files)"

definition walk_entries :: "walk_item list \<Rightarrow> index_entry list" where
  "walk_entries items = concat (map (\<lambda>(dirpath, dirs, files). indexable dirpath files) items)"

definition env_entries :: "fs_dir list \<Rightarrow> index_entry list" where
  \<comment> \<open>every readable file below the roots that no hidden directory hides, in walk order\<close>
  "env_entries env = concat (map (\<lambda>d. walk_entries (os_walk keep_dir (dir_name d) d)) env)"

definition quiet_file :: "file_node \<Rightarrow> bool" where
  \<comment> \<open>no exception of this file leaves the inner \<^verbatim>\<open>try\<close>, as far as the file decides it: it
      is hidden, or its stat fails, or its time can be formatted or fails with an
      \<^verbatim>\<open>OSError\<close>\<close>
  "quiet_file f =
     (if visible_file f
      then (case fstat f of
              Inl err \<Rightarrow> True
            | Inr file_stat \<Rightarrow>
                (case fromtimestamp (st_mtime file_stat) of
                   Inl x \<Rightarrow> caught x
                 | Inr date \<Rightarrow> True))
      else True)"

definition quiet_walk :: "walk_item list \<Rightarrow> bool" where
  "quiet_walk items = list_all (\<lambda>(dirpath, dirs, files). list_all quiet_file files) items"

definition quiet :: "fs_dir list \<Rightarrow> bool" where
  "quiet env = list_all (\<lambda>d. quiet_walk (os_walk keep_dir (dir_name d) d)) env"

definition emitted :: "session \<Rightarrow> signal list" where
  "emitted r = (case r of OpenFailed e \<Rightarrow> [] | Aborted x s \<Rightarrow> signals s | Ended s \<Rightarrow> signals s)"

definition raised :: "session \<Rightarrow> py_exception option" where
  "raised r = (case r of OpenFailed e \<Rightarrow> Some (Sqlite3Error e) | Aborted x s \<Rightarrow> Some x
               | Ended s \<Rightarrow> None)"

definition stored :: "session \<Rightarrow> string list" where
  \<comment> \<open>the names of the rows the connection of the session holds when \<^verbatim>\<open>run\<close> is left\<close>
  "stored r = (case r of OpenFailed e \<Rightarrow> [] | Aborted x s \<Rightarrow> map (\<lambda>r. name (snd r)) (db s)
               | Ended s \<Rightarrow> map (\<lambda>r. name (snd r)) (db s))"

fun percentages :: "signal list \<Rightarrow> int list" where
  \<comment> \<open>the percentages an observer of \<^verbatim>\<open>progress_signal\<close> sees, in order\<close>
  "percentages [] = []"
| "percentages (Progress m p # es) = p # percentages es"
| "percentages (Finished # es) = percentages es"

fun processed_counts :: "signal list \<Rightarrow> int list" where
  \<comment> \<open>the processed-file counts the progress messages show, in order\<close>
  "processed_counts [] = []"
| "processed_counts (Progress (Indexed n q) p # es) = n # processed_counts es"
| "processed_counts (Progress (Completed n) p # es) = n # processed_counts es"
| "processed_counts (e # es) = processed_counts es"

fun periodic :: "signal list \<Rightarrow> (int \<times> int \<times> int) list" where
  \<comment> \<open>the periodic signals: count and percentage of the message, and percentage\<close>
  "periodic [] = []"
| "periodic (Progress (Indexed n q) p # es) = (n, q, p) # periodic es"
| "periodic (e # es) = periodic es"

fun walking_signal :: "int \<Rightarrow> int \<Rightarrow> signal \<Rightarrow> bool" where
  \<comment> \<open>what holds of a signal emitted before the end of the drive loop, for the estimate
      \<open>est\<close> and the current counter \<open>fp\<close>\<close>
  "walking_signal est fp (Progress (Indexed n q) p) =
     (q = p \<and> p = percentage_of n est \<and> 0 < n \<and> n \<le> fp \<and> n mod 500 = 0)"
| "walking_signal est fp (Progress (Completed n) p) = False"
| "walking_signal est fp (Progress m p) = (0 \<le> p \<and> p \<le> percentage_of fp est)"
| "walking_signal est fp Finished = False"

definition walking :: "int \<Rightarrow> indexer \<Rightarrow> bool" where
  "walking est s \<longleftrightarrow>
     total_files_estimated s = est \<and> 0 \<le> files_processed s
     \<and> list_all (walking_signal est (files_processed s)) (signals s)
     \<and> sorted (percentages (signals s)) \<and> sorted (processed_counts (signals s))"

definition every_500 :: "int \<Rightarrow> int \<Rightarrow> (int \<times> int \<times> int) list" where
  \<comment> \<open>one periodic signal for each full 500 of \<open>fp\<close> processed files, with the percentage
      of the code for the estimate \<open>est\<close>\<close>
  "every_500 est fp =
     map (\<lambda>i. (500 * i,
               min 99 (py_int (py_fmul (py_truediv (500 * i) est) (py_float 100))),
               min 99 (py_int (py_fmul (py_truediv (500 * i) est) (py_float 100)))))
         [1..fp div 500]"



definition columns :: "file_row \<Rightarrow> result_row" where
  "columns r = (name (snd r), path (snd r), file_type (snd r))"

definition wildcard_free :: "string \<Rightarrow> bool" where
  "wildcard_free q = (CHR ''%'' \<notin> set q \<and> CHR ''_'' \<notin> set q)"

section \<open>States along a session\<close>

definition counted :: "string \<Rightarrow> string \<Rightarrow> stat_result \<Rightarrow> indexer \<Rightarrow> indexer" where
  \<comment> \<open>the state once the row of a file is written and counted\<close>
  "counted dirpath file file_stat s =
     s\<lparr>db := insert_or_replace (entry_of dirpath file file_stat) (db s),
       statements := Suc (statements s),
       files_processed := files_processed s + 1\<rparr>"

definition signalled :: "indexer \<Rightarrow> indexer" where
  \<comment> \<open>the state once a batch is committed and its signal emitted\<close>
  "signalled s =
     emit (Progress (Indexed (files_processed s) (get_percentage s)) (get_percentage s))
       (s\<lparr>committed := db s, statements := Suc (statements s)\<rparr>)"

definition after_file :: "string \<Rightarrow> file_node \<Rightarrow> indexer \<Rightarrow> indexer" where
  \<comment> \<open>the state after a file whose \<^verbatim>\<open>try\<close> raises nothing that escapes\<close>
  "after_file r f s =
     (case readable_at f of
        None \<Rightarrow> s
      | Some st \<Rightarrow>
          if (files_processed s + 1) mod 500 = 0 then signalled (counted r (fname f) st s)
          else counted r (fname f) st s)"

definition start :: "(nat \<times> sqlite_error) option \<Rightarrow> nat option \<Rightarrow> file_row list \<Rightarrow> fs_dir list
    \<Rightarrow> indexer" where
  \<comment> \<open>the state in which \<^verbatim>\<open>run\<close> enters the drive loop\<close>
  "start failing cancel t env =
     (estimate_total_files env (emit (Progress Estimating 0) (init_indexer failing cancel t)))
       \<lparr>files_processed := 0\<rparr>"

definition closing :: "indexer \<Rightarrow> indexer" where
  \<comment> \<open>the state after the last commit and the two last signals\<close>
  "closing s =
     emit Finished (emit (Progress (Completed (files_processed s)) 100)
       (s\<lparr>committed := db s, statements := Suc (statements s)\<rparr>))"

definition on_beat :: "int \<Rightarrow> indexer \<Rightarrow> bool" where
  \<comment> \<open>the periodic signals emitted so far are those of the files processed so far\<close>
  "on_beat est s \<longleftrightarrow>
     total_files_estimated s = est \<and> 0 < est \<and> 0 \<le> files_processed s
     \<and> periodic (signals s) = every_500 est (files_processed s)"

definition later :: "nat \<Rightarrow> indexer \<Rightarrow> indexer" where
  \<comment> \<open>the same state after \<open>k\<close> more reads of the flag\<close>
  "later k s = s\<lparr>clock := clock s + k\<rparr>"

section \<open>Example inputs\<close>

definition readable :: "string \<Rightarrow> file_node" where
  "readable n = File n (Inr \<lparr>st_size = 10, st_mtime = 1700000000\<rparr>)"

definition nine_and_one :: "fs_dir" where
  "nine_and_one =
     Dir ''/'' [readable ''a'', readable ''b'', readable ''c'', readable ''d'',
                File ''locked'' (Inl PermissionError),
                readable ''e'', readable ''f'', readable ''g'', readable ''h'', readable ''i''] []"

definition twelve_files :: "fs_dir" where
  "twelve_files =
     Dir ''/'' (map readable [''f01'', ''f02'', ''f03'', ''f04'', ''f05'', ''f06'',
                              ''f07'', ''f08'', ''f09'', ''f10'', ''f11'', ''f12'']) []"

definition numbered :: "nat \<Rightarrow> string" where
  "numbered i = ''f'' @ map (\<lambda>d. char_of (48 + d)) [i div 100 mod 10, i div 10 mod 10, i mod 10]"

definition five_hundred_files :: "fs_dir" where
  "five_hundred_files = Dir ''/'' (map (\<lambda>i. readable (numbered i)) [0..<500]) []"

definition year_10000 :: "fs_dir" where
  \<comment> \<open>the second file was last modified in the first second of the year 10000\<close>
  "year_10000 =
     Dir ''/'' [readable ''a'',
                File ''far'' (Inr \<lparr>st_size = 10, st_mtime = 253402300800\<rparr>),
                readable ''b''] []"

definition fresh_bar :: "search_bar" where
  "fresh_bar = \<lparr>results_list = [], results_visible = False, status_label = NoStatus, executed = []\<rparr>"

definition named :: "string \<Rightarrow> index_entry" where
  "named n = \<lparr>name = n, path = ''/'' @ n, file_type = map py_lower (splitext_ext n),
              file_size = 1, modified_date = 0\<rparr>"

definition invoices :: "file_row list" where
  "invoices = [(1, named ''invoice_old.txt''), (2, named ''README.md''),
               (3, named ''Invoice2023.pdf'')]"

section \<open>Rounding is monotone\<close>

lemma rhe_of_int: "round_half_even (of_int n) = n"
  by (simp add: round_half_even_def)

lemma rhe_floor: "\<lfloor>x\<rfloor> \<le> round_half_even x" "round_half_even x \<le> \<lfloor>x\<rfloor> + 1"
  by (simp_all add: round_half_even_def Let_def)

lemma rhe_mono:
  assumes "x \<le> y"
  shows "round_half_even x \<le> round_half_even y"
proof (cases "\<lfloor>x\<rfloor> = \<lfloor>y\<rfloor>")
  case True
  from assms True have "x - of_int \<lfloor>x\<rfloor> \<le> y - of_int \<lfloor>y\<rfloor>" by simp
  with True show ?thesis
    by (auto simp: round_half_even_def Let_def)
next
  case False
  with assms have "\<lfloor>x\<rfloor> < \<lfloor>y\<rfloor>"
    using floor_mono [of x y] by linarith
  then have "round_half_even x \<le> \<lfloor>y\<rfloor>"
    using rhe_floor(2) [of x] by linarith
  also have "\<dots> \<le> round_half_even y" by (rule rhe_floor(1))
  finally show ?thesis .
qed

lemma bitlen_powi:
  assumes "0 < a"
  shows "0 < bitlen a" and "(2::rat) powi (bitlen a - 1) \<le> of_int a"
    and "of_int a < (2::rat) powi bitlen a"
proof -
  show pos: "0 < bitlen a"
    using assms bitlen_eq_zero_iff [of a] bitlen_nonneg [of a] by linarith
  from bitlen_bounds [OF assms]
  have lo: "2 ^ nat (bitlen a - 1) \<le> a" and hi: "a < 2 ^ nat (bitlen a)" by simp_all
  have "(2::rat) powi (bitlen a - 1) = of_int (2 ^ nat (bitlen a - 1))"
    using pos by (simp add: power_int_def)
  also have "\<dots> \<le> of_int a" using lo by (simp only: of_int_le_iff)
  finally show "(2::rat) powi (bitlen a - 1) \<le> of_int a" .
  have "(of_int a :: rat) < of_int (2 ^ nat (bitlen a))" using hi by (simp only: of_int_less_iff)
  also have "\<dots> = 2 powi bitlen a" using pos by (simp add: power_int_def)
  finally show "of_int a < (2::rat) powi bitlen a" .
qed

lemma binade_bounds:
  assumes "0 < x"
  shows "2 powi binade x \<le> x" and "x < 2 powi (binade x + 1)"
proof -
  obtain a b where q: "quotient_of x = (a, b)" by (cases "quotient_of x")
  then have b: "0 < b" and x: "x = of_int a / of_int b"
    using quotient_of_denom_pos quotient_of_div by auto
  with assms have a: "0 < a"
    by (simp add: zero_less_divide_iff)
  define na nb where "na = bitlen a" and "nb = bitlen b"
  have na: "0 < na" "(2::rat) powi (na - 1) \<le> of_int a" "of_int a < (2::rat) powi na"
    using bitlen_powi [OF a] by (simp_all add: na_def)
  have nb: "0 < nb" "(2::rat) powi (nb - 1) \<le> of_int b" "of_int b < (2::rat) powi nb"
    using bitlen_powi [OF b] by (simp_all add: nb_def)
  have bpos: "(0::rat) < of_int b" using b by simp
  have "(2::rat) powi (na - 1 - nb) = 2 powi (na - 1) / 2 powi nb"
    by (rule power_int_diff) simp
  then have "(2::rat) powi (na - nb - 1) = 2 powi (na - 1) / 2 powi nb"
    by (simp only: diff_right_commute)
  also have "\<dots> \<le> of_int a / 2 powi nb"
    using na(2) by (simp add: divide_right_mono)
  also have "\<dots> \<le> of_int a / of_int b"
    using nb(3) a bpos by (simp add: frac_le)
  finally have lo: "2 powi (na - nb - 1) \<le> x" by (simp add: x)
  have "x = of_int a / of_int b" by (rule x)
  also have "\<dots> < 2 powi na / of_int b"
    using na(3) bpos by (simp add: divide_strict_right_mono)
  also have "\<dots> \<le> 2 powi na / 2 powi (nb - 1)"
    using nb(2) by (simp add: frac_le)
  also have "\<dots> = 2 powi (na - (nb - 1))"
    by (rule power_int_diff [symmetric]) simp
  also have "na - (nb - 1) = na - nb + 1" by simp
  finally have hi: "x < 2 powi (na - nb + 1)" .
  have k: "binade x = (if 2 powi (na - nb) \<le> x then na - nb else na - nb - 1)"
    by (simp add: binade_def q na_def nb_def Let_def)
  show "2 powi binade x \<le> x" using lo by (simp add: k)
  show "x < 2 powi (binade x + 1)" using hi by (auto simp: k not_le)
qed

lemma binade_mono:
  assumes "0 < x" and "x \<le> y"
  shows "binade x \<le> binade y"
proof -
  have "0 < y" using assms by simp
  have "(2::rat) powi binade x \<le> x" by (rule binade_bounds(1) [OF assms(1)])
  also have "\<dots> \<le> y" by (rule assms(2))
  also have "\<dots> < 2 powi (binade y + 1)" by (rule binade_bounds(2) [OF \<open>0 < y\<close>])
  finally have lt: "(2::rat) powi binade x < 2 powi (binade y + 1)" .
  show ?thesis
  proof (rule ccontr)
    assume "\<not> binade x \<le> binade y"
    then have "binade y + 1 \<le> binade x" by simp
    then have "(2::rat) powi (binade y + 1) \<le> 2 powi binade x"
      by (rule power_int_increasing) simp
    with lt show False by simp
  qed
qed

lemma round_pos_range:
  assumes "0 < x"
  shows "2 powi binade x \<le> round_pos x" and "round_pos x \<le> 2 powi (binade x + 1)"
proof -
  define u :: rat where "u = 2 powi (binade x - 52)"
  have u: "0 < u" by (simp add: u_def)
  have lo: "2 powi binade x = of_int (2 ^ 52) * u"
    by (simp add: u_def power_int_diff)
  have hi: "2 powi (binade x + 1) = of_int (2 ^ 53) * u"
    by (simp add: u_def power_int_diff power_int_add)
  have r: "round_pos x = of_int (round_half_even (x / u)) * u"
    by (simp add: round_pos_def u_def Let_def)
  have "of_int (2 ^ 52) \<le> x / u"
    using binade_bounds(1) [OF assms] u by (simp add: lo pos_le_divide_eq)
  then have "round_half_even (of_int (2 ^ 52)) \<le> round_half_even (x / u)"
    by (rule rhe_mono)
  then have "(of_int (2 ^ 52) :: rat) \<le> of_int (round_half_even (x / u))"
    by (simp only: rhe_of_int of_int_le_iff)
  then show "2 powi binade x \<le> round_pos x"
    using u by (simp only: lo r mult_le_cancel_right_pos)
  have "x / u \<le> of_int (2 ^ 53)"
    using binade_bounds(2) [OF assms] u by (simp add: hi pos_divide_le_eq)
  then have "round_half_even (x / u) \<le> round_half_even (of_int (2 ^ 53))"
    by (rule rhe_mono)
  then have "(of_int (round_half_even (x / u)) :: rat) \<le> of_int (2 ^ 53)"
    by (simp only: rhe_of_int of_int_le_iff)
  then show "round_pos x \<le> 2 powi (binade x + 1)"
    using u by (simp only: hi r mult_le_cancel_right_pos)
qed

lemma round_pos_mono:
  assumes "0 < x" and "x \<le> y"
  shows "round_pos x \<le> round_pos y"
proof (cases "binade x = binade y")
  case True
  define u :: rat where "u = 2 powi (binade y - 52)"
  have u: "0 < u" by (simp add: u_def)
  have "x / u \<le> y / u" using assms(2) u by (simp add: divide_right_mono)
  then have "round_half_even (x / u) \<le> round_half_even (y / u)" by (rule rhe_mono)
  then have "(of_int (round_half_even (x / u)) :: rat) * u \<le> of_int (round_half_even (y / u)) * u"
    using u by (simp only: mult_le_cancel_right_pos of_int_le_iff)
  then show ?thesis by (simp add: round_pos_def True u_def Let_def)
next
  case False
  have y: "0 < y" using assms by simp
  from False binade_mono [OF assms] have "binade x + 1 \<le> binade y" by simp
  then have "(2::rat) powi (binade x + 1) \<le> 2 powi binade y"
    by (rule power_int_increasing) simp
  with round_pos_range(2) [OF assms(1)] round_pos_range(1) [OF y]
  show ?thesis by linarith
qed

lemma fl_round_nonneg: "0 \<le> x \<Longrightarrow> 0 \<le> fl_round x"
proof -
  assume "0 \<le> x"
  show ?thesis
  proof (cases "x = 0")
    case True then show ?thesis by (simp add: fl_round_def)
  next
    case False
    with \<open>0 \<le> x\<close> have x: "0 < x" by simp
    have "(0::rat) \<le> 2 powi binade x" by simp
    also have "\<dots> \<le> round_pos x" by (rule round_pos_range(1) [OF x])
    finally show ?thesis using x by (simp add: fl_round_def)
  qed
qed

lemma fl_round_mono:
  assumes "0 \<le> x" and "x \<le> y"
  shows "fl_round x \<le> fl_round y"
proof (cases "x = 0")
  case True
  then show ?thesis using fl_round_nonneg [of y] assms by (simp add: fl_round_def)
next
  case False
  with assms have x: "0 < x" and y: "0 < y" by simp_all
  from round_pos_mono [OF x assms(2)] x y show ?thesis by (simp add: fl_round_def)
qed

section \<open>The store keeps one row per path\<close>




lemma entries_insert_or_replace:
  "map snd (insert_or_replace e t) = filter (\<lambda>x. path x \<noteq> path e) (map snd t) @ [e]"
  by (simp add: insert_or_replace_def filter_map comp_def)

lemma entries_fold_insert:
  "map snd (fold insert_or_replace es t) =
     filter (\<lambda>x. path x \<notin> path ` set es) (map snd t) @ map snd (fold insert_or_replace es [])"
proof (induction es arbitrary: t)
  case Nil
  then show ?case by simp
next
  case (Cons e es)
  have "map snd (fold insert_or_replace (e # es) t) =
        filter (\<lambda>x. path x \<notin> path ` set es) (map snd (insert_or_replace e t)) @
        map snd (fold insert_or_replace es [])"
    using Cons.IH [of "insert_or_replace e t"] by simp
  moreover have "map snd (fold insert_or_replace (e # es) []) =
        filter (\<lambda>x. path x \<notin> path ` set es) (map snd (insert_or_replace e [])) @
        map snd (fold insert_or_replace es [])"
    using Cons.IH [of "insert_or_replace e []"] by simp
  ultimately show ?case
    by (simp add: entries_insert_or_replace conj_commute)
qed



lemma entries_fold_cong:
  "map snd t = map snd t' \<Longrightarrow>
   map snd (fold insert_or_replace es t) = map snd (fold insert_or_replace es t')"
  by (simp add: entries_fold_insert [of es t] entries_fold_insert [of es t'])

section \<open>\<^verbatim>\<open>LIKE\<close> and containment\<close>

lemma like_percent: "like ''%'' s"
  by (induction s) simp_all

lemma like_prefix:
  "wildcard_free q \<Longrightarrow> like (q @ ''%'') s = ci_prefix q s"
proof (induction q arbitrary: s)
  case Nil
  then show ?case by (simp add: like_percent)
next
  case (Cons a q)
  then have a: "a \<noteq> CHR ''%''" "a \<noteq> CHR ''_''" and q: "wildcard_free q"
    by (auto simp: wildcard_free_def)
  show ?case
  proof (cases s)
    case Nil
    with a show ?thesis by simp
  next
    case (Cons c cs)
    with a Cons.IH [OF q, of cs] show ?thesis by simp
  qed
qed

lemma ci_prefix_Nil: "ci_prefix q [] = (q = [])"
  by (cases q) simp_all

lemma like_contains:
  assumes "wildcard_free q"
  shows "like (''%'' @ q @ ''%'') s = ci_contains q s"
proof (induction s)
  case Nil
  show ?case using like_prefix [OF assms, of "[]"] by (simp add: ci_prefix_Nil)
next
  case (Cons c cs)
  then show ?case using like_prefix [OF assms, of "c # cs"] by simp
qed

lemma ci_prefix_iff:
  "ci_prefix q s \<longleftrightarrow> (\<exists>post. map sqlite_lower s = map sqlite_lower q @ post)"
  by (induction q s rule: ci_prefix.induct) auto

lemma ci_contains_iff:
  "ci_contains q s \<longleftrightarrow> (\<exists>pre post. map sqlite_lower s = pre @ map sqlite_lower q @ post)"
proof (induction s)
  case Nil
  then show ?case by auto
next
  case (Cons c cs)
  show ?case
  proof
    assume "ci_contains q (c # cs)"
    then consider "ci_prefix q (c # cs)" | "ci_contains q cs" by auto
    then show "\<exists>pre post. map sqlite_lower (c # cs) = pre @ map sqlite_lower q @ post"
    proof cases
      case 1
      then obtain post where "map sqlite_lower (c # cs) = map sqlite_lower q @ post"
        unfolding ci_prefix_iff by blast
      then have "map sqlite_lower (c # cs) = [] @ map sqlite_lower q @ post" by simp
      then show ?thesis by blast
    next
      case 2
      then obtain pre post where "map sqlite_lower cs = pre @ map sqlite_lower q @ post"
        unfolding Cons.IH by blast
      then have "map sqlite_lower (c # cs) = (sqlite_lower c # pre) @ map sqlite_lower q @ post"
        by simp
      then show ?thesis by blast
    qed
  next
    assume "\<exists>pre post. map sqlite_lower (c # cs) = pre @ map sqlite_lower q @ post"
    then obtain pre post where e: "map sqlite_lower (c # cs) = pre @ map sqlite_lower q @ post"
      by blast
    show "ci_contains q (c # cs)"
    proof (cases pre)
      case Nil
      with e have "ci_prefix q (c # cs)" unfolding ci_prefix_iff by auto
      then show ?thesis by simp
    next
      case (Cons p pre')
      with e have "map sqlite_lower cs = pre' @ map sqlite_lower q @ post" by simp
      then have "ci_contains q cs" unfolding Cons.IH by blast
      then show ?thesis by simp
    qed
  qed
qed

lemma select_files_columns:
  "select_files (Inr t) pattern =
     Inr (take 100 (sort_key fst (map columns (filter (\<lambda>r. like pattern (name (snd r))) t))))"
  by (simp add: select_files_def columns_def [abs_def])

lemma search_results:
  assumes "strip text_input \<noteq> []"
  shows "results_list (search (Inr t) text_input ui) =
           take 100 (sort_key fst (map columns
             (filter (\<lambda>r. like (''%'' @ strip text_input @ ''%'') (name (snd r))) t)))"
    and "executed (search (Inr t) text_input ui) = executed ui @ [''%'' @ strip text_input @ ''%'']"
  using assms by (simp_all add: search_def Let_def select_files_columns)

section \<open>The cases of one file and what every loop preserves\<close>

lemma tick_fields [simp]:
  "stop_at (tick s) = stop_at s" "clock (tick s) = Suc (clock s)"
  "fault (tick s) = fault s" "statements (tick s) = statements s"
  "total_files_estimated (tick s) = total_files_estimated s"
  "files_processed (tick s) = files_processed s" "db (tick s) = db s"
  "committed (tick s) = committed s" "signals (tick s) = signals s"
  by (simp_all add: tick_def)

lemma emit_fields [simp]:
  "stop_at (emit e s) = stop_at s" "clock (emit e s) = clock s"
  "fault (emit e s) = fault s" "statements (emit e s) = statements s"
  "total_files_estimated (emit e s) = total_files_estimated s"
  "files_processed (emit e s) = files_processed s" "db (emit e s) = db s"
  "committed (emit e s) = committed s" "signals (emit e s) = signals s @ [e]"
  by (simp_all add: emit_def)

lemma counted_fields [simp]:
  "stop_at (counted r f st s) = stop_at s" "clock (counted r f st s) = clock s"
  "fault (counted r f st s) = fault s" "statements (counted r f st s) = Suc (statements s)"
  "total_files_estimated (counted r f st s) = total_files_estimated s"
  "files_processed (counted r f st s) = files_processed s + 1"
  "db (counted r f st s) = insert_or_replace (entry_of r f st) (db s)"
  "committed (counted r f st s) = committed s" "signals (counted r f st s) = signals s"
  by (simp_all add: counted_def)

lemma signalled_fields [simp]:
  "stop_at (signalled s) = stop_at s" "clock (signalled s) = clock s"
  "fault (signalled s) = fault s" "statements (signalled s) = Suc (statements s)"
  "total_files_estimated (signalled s) = total_files_estimated s"
  "files_processed (signalled s) = files_processed s" "db (signalled s) = db s"
  "committed (signalled s) = db s"
  "signals (signalled s) =
     signals s @ [Progress (Indexed (files_processed s) (get_percentage s)) (get_percentage s)]"
  by (simp_all add: signalled_def get_percentage_def)

lemma state_of_simps [simp]: "state_of (Inr s) = s" "state_of (Inl (x, s)) = s"
  by (simp_all add: state_of_def)

lemma statement_cases:
  obtains (raises) e where "statement eff s = Inl (Sqlite3Error e, s)" "fault s \<noteq> None"
  | (passes) "statement eff s = Inr ((eff s)\<lparr>statements := Suc (statements s)\<rparr>)"
proof (cases "fault s")
  case None
  then show ?thesis by (intro passes) (simp add: statement_def)
next
  case (Some ne)
  obtain n e where ne: "ne = (n, e)" by (cases ne)
  show ?thesis
  proof (cases "n = statements s")
    case True
    with Some ne have "statement eff s = Inl (Sqlite3Error e, s)" by (simp add: statement_def)
    then show ?thesis using Some by (intro raises) simp_all
  next
    case False
    with Some ne show ?thesis by (intro passes) (simp add: statement_def)
  qed
qed

lemma statement_no_fault:
  "fault s = None \<Longrightarrow> statement eff s = Inr ((eff s)\<lparr>statements := Suc (statements s)\<rparr>)"
  by (simp add: statement_def)

lemma store_file_cases:
  obtains (date) x where "store_file r f st s = Inl (x, s)" "fromtimestamp (st_mtime st) = Inl x"
  | (insert) e where "store_file r f st s = Inl (Sqlite3Error e, s)" "fault s \<noteq> None"
  | (commit) e where "store_file r f st s = Inl (Sqlite3Error e, counted r f st s)"
        "(files_processed s + 1) mod 500 = 0" "fault s \<noteq> None"
  | (counted) "store_file r f st s = Inr (counted r f st s)"
        "(files_processed s + 1) mod 500 \<noteq> 0"
        "fromtimestamp (st_mtime st) = Inr (st_mtime st)"
  | (signalled) "store_file r f st s = Inr (signalled (counted r f st s))"
        "(files_processed s + 1) mod 500 = 0"
        "fromtimestamp (st_mtime st) = Inr (st_mtime st)"
proof (cases "fromtimestamp (st_mtime st)")
  case (Inl x)
  then have "store_file r f st s = Inl (x, s)" by (simp add: store_file_def)
  then show ?thesis using Inl by (rule date)
next
  case (Inr d)
  then have d: "fromtimestamp (st_mtime st) = Inr (st_mtime st)"
    by (auto simp: fromtimestamp_def split: if_splits)
  let ?ins = "\<lambda>s. s\<lparr>db := insert_or_replace (entry_of r f st) (db s)\<rparr>"
  show ?thesis
  proof (cases rule: statement_cases [of ?ins s])
    case (raises e)
    then have "store_file r f st s = Inl (Sqlite3Error e, s)"
      using Inr by (simp add: store_file_def execute_insert_def and_then_def)
    then show ?thesis using raises(2) by (rule insert)
  next
    case passes
    define s2 where "s2 = counted r f st s"
    have s2: "(?ins s)\<lparr>statements := Suc (statements s),
        files_processed := files_processed s + 1\<rparr> = s2"
      by (simp add: s2_def counted_def)
    show ?thesis
    proof (cases "(files_processed s + 1) mod 500 = 0")
      case False
      then have "store_file r f st s = Inr s2"
        using Inr passes s2 by (simp add: store_file_def execute_insert_def and_then_def Let_def)
      then show ?thesis using False d unfolding s2_def by (rule counted)
    next
      case True
      show ?thesis
      proof (cases rule: statement_cases [of "\<lambda>s. s\<lparr>committed := db s\<rparr>" s2])
        case (raises e)
        then have "store_file r f st s = Inl (Sqlite3Error e, s2)"
          using Inr passes s2 True
          by (simp add: store_file_def execute_insert_def and_then_def Let_def commit_def)
        moreover from raises(2) have "fault s \<noteq> None" by (simp add: s2_def)
        ultimately show ?thesis using True unfolding s2_def by (intro commit)
      next
        case commits: passes
        have "store_file r f st s = Inr (signalled s2)"
          using Inr passes s2 True commits
          by (simp add: store_file_def execute_insert_def and_then_def Let_def commit_def
              signalled_def get_percentage_def)
        then show ?thesis using True d unfolding s2_def by (rule signalled)
      qed
    qed
  qed
qed

lemma try_file_cases:
  obtains (stat_fails) err where "fstat f = Inl err" "try_file r f s = Inr s"
  | (date_skipped) st x where "fstat f = Inr st" "fromtimestamp (st_mtime st) = Inl x"
        "caught x" "try_file r f s = Inr s"
  | (date_raises) st x where "fstat f = Inr st" "fromtimestamp (st_mtime st) = Inl x"
        "\<not> caught x" "try_file r f s = Inl (x, s)"
  | (insert_raises) st e where "fstat f = Inr st" "fault s \<noteq> None"
        "try_file r f s = Inl (Sqlite3Error e, s)"
  | (commit_raises) st e where "fstat f = Inr st" "fault s \<noteq> None"
        "(files_processed s + 1) mod 500 = 0"
        "try_file r f s = Inl (Sqlite3Error e, counted r (fname f) st s)"
  | (counted) st where "fstat f = Inr st" "fromtimestamp (st_mtime st) = Inr (st_mtime st)"
        "(files_processed s + 1) mod 500 \<noteq> 0"
        "try_file r f s = Inr (counted r (fname f) st s)"
  | (signalled) st where "fstat f = Inr st" "fromtimestamp (st_mtime st) = Inr (st_mtime st)"
        "(files_processed s + 1) mod 500 = 0"
        "try_file r f s = Inr (signalled (counted r (fname f) st s))"
proof (cases "fstat f")
  case (Inl err)
  then have "try_file r f s = Inr s" by (simp add: try_file_def caught_def)
  with Inl show ?thesis by (rule stat_fails)
next
  case (Inr st)
  show ?thesis
  proof (cases rule: store_file_cases [of r "fname f" st s])
    case (date x)
    show ?thesis
    proof (cases "caught x")
      case True
      with Inr date have "try_file r f s = Inr s" by (simp add: try_file_def)
      with Inr date(2) True show ?thesis by (rule date_skipped)
    next
      case False
      with Inr date have "try_file r f s = Inl (x, s)" by (simp add: try_file_def)
      with Inr date(2) False show ?thesis by (rule date_raises)
    qed
  next
    case (insert e)
    with Inr have "try_file r f s = Inl (Sqlite3Error e, s)"
      by (simp add: try_file_def caught_def)
    with Inr insert(2) show ?thesis by (rule insert_raises)
  next
    case (commit e)
    with Inr have "try_file r f s = Inl (Sqlite3Error e, counted r (fname f) st s)"
      by (simp add: try_file_def caught_def)
    with Inr commit(3,2) show ?thesis by (rule commit_raises)
  next
    case counted
    with Inr have "try_file r f s = Inr (counted r (fname f) st s)"
      by (simp add: try_file_def)
    with Inr counted(3,2) show ?thesis by (rule that(6))
  next
    case signalled
    with Inr have "try_file r f s = Inr (signalled (counted r (fname f) st s))"
      by (simp add: try_file_def)
    with Inr signalled(3,2) show ?thesis by (rule that(7))
  qed
qed

lemma try_file_preserves:
  assumes "P s"
    and "\<And>st. P (counted r (fname f) st s)"
    and "\<And>st. (files_processed s + 1) mod 500 = 0 \<Longrightarrow> P (signalled (counted r (fname f) st s))"
  shows "P (state_of (try_file r f s))"
  by (cases rule: try_file_cases [of f r s]) (use assms in simp_all)

lemma index_files_preserves:
  assumes tick: "\<And>s. P s \<Longrightarrow> P (tick s)"
    and counted: "\<And>s r f st. P s \<Longrightarrow> P (counted r f st s)"
    and signalled: "\<And>s r f st. P s \<Longrightarrow> (files_processed s + 1) mod 500 = 0
                      \<Longrightarrow> P (signalled (counted r f st s))"
  shows "P s \<Longrightarrow> P (state_of (index_files r fs s))"
proof (induction fs arbitrary: s)
  case Nil
  then show ?case by simp
next
  case (Cons f fs)
  note t = tick [OF Cons.prems]
  have step: "P (state_of (try_file r f (tick s)))"
    by (rule try_file_preserves [OF t counted [OF t] signalled [OF t]]) simp
  show ?case
  proof (cases "try_file r f (tick s)")
    case (Inl e)
    with step t Cons.IH [OF t] show ?thesis by simp
  next
    case (Inr s')
    with step have "P s'" by simp
    with Inr t Cons.IH [OF t] Cons.IH [of s'] show ?thesis by simp
  qed
qed

lemma index_dirs_preserves:
  assumes tick: "\<And>s. P s \<Longrightarrow> P (tick s)"
    and counted: "\<And>s r f st. P s \<Longrightarrow> P (counted r f st s)"
    and signalled: "\<And>s r f st. P s \<Longrightarrow> (files_processed s + 1) mod 500 = 0
                      \<Longrightarrow> P (signalled (counted r f st s))"
  shows "P s \<Longrightarrow> P (state_of (index_dirs items s))"
proof (induction items arbitrary: s)
  case Nil
  then show ?case by simp
next
  case (Cons item items)
  obtain r ds fs where item: "item = (r, ds, fs)" by (cases item)
  note t = tick [OF Cons.prems]
  have step: "P (state_of (index_files r fs (tick s)))"
    by (rule index_files_preserves [of P, OF tick counted signalled t])
  show ?case
  proof (cases "index_files r fs (tick s)")
    case (Inl e)
    with step t show ?thesis by (simp add: item)
  next
    case (Inr s')
    with step have "P s'" by simp
    with Inr t Cons.IH [of s'] show ?thesis by (simp add: item)
  qed
qed

lemma index_drives_preserves:
  assumes tick: "\<And>s. P s \<Longrightarrow> P (tick s)"
    and counted: "\<And>s r f st. P s \<Longrightarrow> P (counted r f st s)"
    and signalled: "\<And>s r f st. P s \<Longrightarrow> (files_processed s + 1) mod 500 = 0
                      \<Longrightarrow> P (signalled (counted r f st s))"
    and drive: "\<And>s d. P s \<Longrightarrow> P (emit (Progress (IndexingDrive d) (get_percentage s)) s)"
  shows "P s \<Longrightarrow> P (state_of (index_drives env s))"
proof (induction env arbitrary: s)
  case Nil
  then show ?case by simp
next
  case (Cons d ds)
  note t = tick [OF Cons.prems]
  define s2 where "s2 = emit (Progress (IndexingDrive (dir_name d)) (get_percentage (tick s))) (tick s)"
  have s2: "P s2" unfolding s2_def by (rule drive [OF t])
  have step: "P (state_of (index_dirs (os_walk keep_dir (dir_name d) d) s2))"
    by (rule index_dirs_preserves [of P, OF tick counted signalled s2])
  show ?case
  proof (cases "index_dirs (os_walk keep_dir (dir_name d) d) s2")
    case (Inl e)
    obtain x s' where e: "e = (x, s')" by (cases e)
    with Inl step have "P s'" by simp
    with Inl e t Cons.IH [of s'] show ?thesis
      by (simp add: Let_def s2_def [symmetric])
  next
    case (Inr s')
    with step have "P s'" by simp
    with Inr t Cons.IH [of s'] show ?thesis
      by (simp add: Let_def s2_def [symmetric])
  qed
qed

section \<open>Percentages, estimates and the signals of the walk\<close>

lemma py_int_nonneg: "0 \<le> x \<Longrightarrow> 0 \<le> py_int x"
  by (simp add: py_int_def)

lemma py_int_mono: "0 \<le> x \<Longrightarrow> x \<le> y \<Longrightarrow> py_int x \<le> py_int y"
  by (simp add: py_int_def floor_mono)

lemma py_float_nonneg: "0 \<le> n \<Longrightarrow> 0 \<le> py_float n"
  by (simp add: py_float_def fl_round_nonneg)

lemma scaled_nonneg:
  assumes "0 \<le> p" and "0 < e"
  shows "0 \<le> py_fmul (py_truediv p e) (py_float 100)"
proof -
  have "0 \<le> py_truediv p e"
    using assms by (simp add: py_truediv_def fl_round_nonneg)
  moreover have "0 \<le> py_float 100" by (simp add: py_float_nonneg)
  ultimately show ?thesis by (simp add: py_fmul_def fl_round_nonneg)
qed

lemma scaled_mono:
  assumes "0 \<le> p" and "p \<le> p'" and "0 < e"
  shows "py_fmul (py_truediv p e) (py_float 100) \<le> py_fmul (py_truediv p' e) (py_float 100)"
proof -
  have q: "(0::rat) \<le> of_int p / of_int e" "(of_int p :: rat) / of_int e \<le> of_int p' / of_int e"
    using assms by (simp_all add: divide_right_mono)
  have d: "0 \<le> py_truediv p e" "py_truediv p e \<le> py_truediv p' e"
    using q by (simp_all add: py_truediv_def fl_round_nonneg fl_round_mono)
  have h: "0 \<le> py_float 100" by (simp add: py_float_nonneg)
  have "0 \<le> py_truediv p e * py_float 100" using d(1) h by simp
  moreover have "py_truediv p e * py_float 100 \<le> py_truediv p' e * py_float 100"
    using d(2) h by (rule mult_right_mono)
  ultimately show ?thesis unfolding py_fmul_def by (rule fl_round_mono)
qed

lemma percentage_of_range:
  assumes "0 \<le> p"
  shows "0 \<le> percentage_of p e" and "percentage_of p e \<le> 99"
  using assms scaled_nonneg [of p e]
  by (simp_all add: percentage_of_def py_int_nonneg)

lemma percentage_of_mono:
  assumes "0 \<le> p" and "p \<le> p'"
  shows "percentage_of p e \<le> percentage_of p' e"
proof (cases "e \<le> 0")
  case True
  then show ?thesis by (simp add: percentage_of_def)
next
  case False
  then have e: "0 < e" by simp
  have "py_int (py_fmul (py_truediv p e) (py_float 100))
        \<le> py_int (py_fmul (py_truediv p' e) (py_float 100))"
    by (rule py_int_mono [OF scaled_nonneg [OF assms(1) e] scaled_mono [OF assms e]])
  then show ?thesis using False by (simp add: percentage_of_def)
qed

lemma percentage_of_zero: "percentage_of 0 e = 0"
  by (simp add: percentage_of_def py_truediv_def py_fmul_def fl_round_def py_int_def)

lemma percentages_append: "percentages (xs @ ys) = percentages xs @ percentages ys"
  by (induction xs rule: percentages.induct) simp_all

lemma processed_counts_append:
  "processed_counts (xs @ ys) = processed_counts xs @ processed_counts ys"
  by (induction xs rule: processed_counts.induct) simp_all

lemma walking_signal_mono:
  assumes "walking_signal est fp e" and "0 \<le> fp" and "fp \<le> fp'"
  shows "walking_signal est fp' e"
  using assms percentage_of_mono [of fp fp' est]
  by (cases "(est, fp, e)" rule: walking_signal.cases) auto

lemma walking_signal_percentage:
  assumes "walking_signal est fp (Progress m p)" and "0 \<le> fp"
  shows "0 \<le> p \<and> p \<le> percentage_of fp est"
proof (cases m)
  case (Indexed n q)
  with assms have n: "p = percentage_of n est" "0 < n" "n \<le> fp" by simp_all
  then show ?thesis
    using percentage_of_range(1) [of n est] percentage_of_mono [of n fp est] by simp
next
  case (Completed n)
  with assms show ?thesis by simp
qed (use assms in simp_all)

lemma walking_percentages:
  assumes "list_all (walking_signal est fp) evs" and "0 \<le> fp"
  shows "\<forall>p\<in>set (percentages evs). 0 \<le> p \<and> p \<le> percentage_of fp est"
  using assms(1)
proof (induction evs)
  case Nil
  then show ?case by simp
next
  case (Cons e evs)
  show ?case
  proof (cases e)
    case (Progress m p)
    with Cons walking_signal_percentage [of est fp m p] assms(2) show ?thesis by simp
  next
    case Finished
    with Cons show ?thesis by simp
  qed
qed

lemma walking_counts:
  assumes "list_all (walking_signal est fp) evs"
  shows "\<forall>n\<in>set (processed_counts evs). n \<le> fp"
  using assms
  by (induction evs rule: processed_counts.induct) simp_all

lemma list_all_walking_mono:
  assumes "list_all (walking_signal est fp) evs" and "0 \<le> fp" and "fp \<le> fp'"
  shows "list_all (walking_signal est fp') evs"
  using assms walking_signal_mono [of est fp _ fp'] by (auto simp: list_all_iff)

lemma walking_tick: "walking est s \<Longrightarrow> walking est (tick s)"
  by (simp add: walking_def)

lemma walking_emit_drive:
  assumes "walking est s"
  shows "walking est (emit (Progress (IndexingDrive d) (get_percentage s)) s)"
proof -
  from assms have a: "total_files_estimated s = est" "0 \<le> files_processed s"
      "list_all (walking_signal est (files_processed s)) (signals s)"
      "sorted (percentages (signals s))" "sorted (processed_counts (signals s))"
    by (simp_all add: walking_def)
  have p: "get_percentage s = percentage_of (files_processed s) est"
    by (simp add: get_percentage_def a(1))
  have "sorted (percentages (signals s) @ [percentage_of (files_processed s) est])"
    using a(4) walking_percentages [OF a(3) a(2)] by (simp add: sorted_append)
  with a show ?thesis
    using percentage_of_range(1) [OF a(2), of est]
    by (simp add: walking_def p percentages_append processed_counts_append)
qed

lemma estimated_total_floor: "1000 \<le> estimated_total env"
  by (simp add: estimated_total_def Let_def split: prod.splits)

lemma sample_files_bound:
  "0 \<le> ss \<Longrightarrow> ss < 20 \<Longrightarrow>
   ss \<le> fst (sample_files items (ss, fc)) \<and> fst (sample_files items (ss, fc)) \<le> 20"
proof (induction items arbitrary: ss fc)
  case Nil
  then show ?case by simp
next
  case (Cons item items)
  obtain r ds fs where item: "item = (r, ds, fs)" by (cases item)
  show ?case
  proof (cases "ss + 1 \<ge> 20")
    case True
    with Cons.prems show ?thesis by (simp add: item Let_def)
  next
    case False
    with Cons.prems Cons.IH [of "ss + 1" "fc + int (length (filter visible_file fs))"]
    show ?thesis by (simp add: item Let_def)
  qed
qed

lemma sample_drives_bound:
  "0 \<le> fst acc \<Longrightarrow> fst acc < 20 \<Longrightarrow>
   fst acc \<le> fst (sample_drives env acc) \<and> fst (sample_drives env acc) \<le> 20"
proof (induction env arbitrary: acc)
  case Nil
  then show ?case by simp
next
  case (Cons d ds)
  obtain ss fc where acc: "acc = (ss, fc)" by (cases acc)
  define acc' where "acc' = sample_files (os_walk keep_dir (dir_name d) d) (ss, fc)"
  have b: "ss \<le> fst acc'" "fst acc' \<le> 20"
    using sample_files_bound [of ss "os_walk keep_dir (dir_name d) d" fc] Cons.prems
    by (simp_all add: acc acc'_def)
  show ?case
  proof (cases "fst acc' \<ge> 20")
    case True
    with b show ?thesis by (simp add: acc acc'_def [symmetric] Let_def)
  next
    case False
    with b Cons.prems Cons.IH [of acc'] show ?thesis
      by (simp add: acc acc'_def [symmetric] Let_def)
  qed
qed

lemma count_dirs_bound:
  "0 \<le> ss \<Longrightarrow> ss < 10 \<Longrightarrow>
   ss \<le> fst (count_dirs items (ss, dc)) \<and> fst (count_dirs items (ss, dc)) \<le> 10"
proof (induction items arbitrary: ss dc)
  case Nil
  then show ?case by simp
next
  case (Cons item items)
  obtain r ds fs where item: "item = (r, ds, fs)" by (cases item)
  show ?case
  proof (cases "ss + 1 \<ge> 10")
    case True
    with Cons.prems show ?thesis by (simp add: item Let_def)
  next
    case False
    with Cons.prems Cons.IH [of "ss + 1" "dc + int (length (filter keep_dir ds))"]
    show ?thesis by (simp add: item Let_def)
  qed
qed

lemma count_drives_bound:
  "0 \<le> fst acc \<Longrightarrow> fst acc < 10 \<Longrightarrow>
   fst acc \<le> fst (count_drives env acc) \<and> fst (count_drives env acc) \<le> 10"
proof (induction env arbitrary: acc)
  case Nil
  then show ?case by simp
next
  case (Cons d ds)
  obtain ss dc where acc: "acc = (ss, dc)" by (cases acc)
  define acc' where "acc' = count_dirs (os_walk keep_dir (dir_name d) d) (ss, dc)"
  have b: "ss \<le> fst acc'" "fst acc' \<le> 10"
    using count_dirs_bound [of ss "os_walk keep_dir (dir_name d) d" dc] Cons.prems
    by (simp_all add: acc acc'_def)
  show ?case
  proof (cases "fst acc' \<ge> 10")
    case True
    with b show ?thesis by (simp add: acc acc'_def [symmetric] Let_def)
  next
    case False
    with b Cons.prems Cons.IH [of acc'] show ?thesis
      by (simp add: acc acc'_def [symmetric] Let_def)
  qed
qed

lemma float_percentage_below_exact_floor:
  "percentage_of 14500 50000 = 28 \<and> spec_percentage 14500 50000 = 29"
  by code_simp

lemma walking_counted:
  assumes "walking est s"
  shows "walking est (counted r f st s)"
proof -
  from assms have a: "total_files_estimated s = est" "0 \<le> files_processed s"
      "list_all (walking_signal est (files_processed s)) (signals s)"
      "sorted (percentages (signals s))" "sorted (processed_counts (signals s))"
    by (simp_all add: walking_def)
  have "list_all (walking_signal est (files_processed s + 1)) (signals s)"
    by (rule list_all_walking_mono [OF a(3) a(2)]) simp
  with a show ?thesis by (simp add: walking_def)
qed

lemma walking_signalled:
  assumes "walking est s" and "0 < files_processed s" and "files_processed s mod 500 = 0"
  shows "walking est (signalled s)"
proof -
  from assms(1) have a: "total_files_estimated s = est" "0 \<le> files_processed s"
      "list_all (walking_signal est (files_processed s)) (signals s)"
      "sorted (percentages (signals s))" "sorted (processed_counts (signals s))"
    by (simp_all add: walking_def)
  define n where "n = files_processed s"
  define q where "q = percentage_of n est"
  have gp: "get_percentage s = q"
    by (simp add: n_def q_def get_percentage_def a(1))
  have "\<forall>p\<in>set (percentages (signals s)). p \<le> q"
    using walking_percentages [OF a(3) a(2)] by (auto simp: q_def n_def)
  then have sp: "sorted (percentages (signals s) @ [q])"
    using a(4) by (simp add: sorted_append)
  have "\<forall>k\<in>set (processed_counts (signals s)). k \<le> n"
    using walking_counts [OF a(3)] by (auto simp: n_def)
  then have sc: "sorted (processed_counts (signals s) @ [n])"
    using a(5) by (simp add: sorted_append)
  have "walking_signal est n (Progress (Indexed n q) q)"
    using assms(2,3) by (simp add: q_def n_def)
  with a sp sc show ?thesis
    by (simp add: walking_def gp percentages_append processed_counts_append n_def [symmetric])
qed

lemma walking_signalled_counted:
  assumes "walking est s" and "(files_processed s + 1) mod 500 = 0"
  shows "walking est (signalled (counted r f st s))"
proof (rule walking_signalled)
  show "walking est (counted r f st s)" by (rule walking_counted [OF assms(1)])
  from assms(1) have "0 \<le> files_processed s" by (simp add: walking_def)
  then show "0 < files_processed (counted r f st s)" by simp
  from assms(2) show "files_processed (counted r f st s) mod 500 = 0" by simp
qed

lemma walking_index_drives: "walking est s \<Longrightarrow> walking est (state_of (index_drives env s))"
  by (rule index_drives_preserves [of "walking est"])
     (simp_all add: walking_tick walking_counted walking_signalled_counted walking_emit_drive)

lemma walking_index_dirs: "walking est s \<Longrightarrow> walking est (state_of (index_dirs items s))"
  by (rule index_dirs_preserves [of "walking est"])
     (simp_all add: walking_tick walking_counted walking_signalled_counted)

lemma walking_index_files: "walking est s \<Longrightarrow> walking est (state_of (index_files r fs s))"
  by (rule index_files_preserves [of "walking est"])
     (simp_all add: walking_tick walking_counted walking_signalled_counted)


lemma index_files_total:
  "total_files_estimated (state_of (index_files r fs s)) = total_files_estimated s"
  by (rule index_files_preserves [of "\<lambda>s'. total_files_estimated s' = total_files_estimated s"])
     simp_all

lemma index_dirs_total:
  "total_files_estimated (state_of (index_dirs items s)) = total_files_estimated s"
  by (rule index_dirs_preserves [of "\<lambda>s'. total_files_estimated s' = total_files_estimated s"])
     simp_all

lemma index_drives_total:
  "total_files_estimated (state_of (index_drives env s)) = total_files_estimated s"
  by (rule index_drives_preserves [of "\<lambda>s'. total_files_estimated s' = total_files_estimated s"])
     simp_all

section \<open>How a session ends\<close>

lemma start_fields [simp]:
  "stop_at (start fl c t env) = c" "clock (start fl c t env) = 0"
  "fault (start fl c t env) = fl" "statements (start fl c t env) = 0"
  "total_files_estimated (start fl c t env) = estimated_total env"
  "files_processed (start fl c t env) = 0" "db (start fl c t env) = t"
  "committed (start fl c t env) = t"
  "signals (start fl c t env) =
     [Progress Estimating 0, Progress (Estimated (estimated_total env)) 0]"
  by (simp_all add: start_def estimate_total_files_def init_indexer_def Let_def)

lemma closing_fields [simp]:
  "stop_at (closing s) = stop_at s" "clock (closing s) = clock s"
  "fault (closing s) = fault s" "statements (closing s) = Suc (statements s)"
  "total_files_estimated (closing s) = total_files_estimated s"
  "files_processed (closing s) = files_processed s" "db (closing s) = db s"
  "committed (closing s) = db s"
  "signals (closing s) = signals s @ [Progress (Completed (files_processed s)) 100, Finished]"
  by (simp_all add: closing_def)

lemma run_cases:
  obtains (walk_raises) x s where "index_drives env (start fl c t env) = Inl (x, s)"
        "run (Inr t) fl c env = Aborted x s"
  | (commit_raises) e s where "index_drives env (start fl c t env) = Inr s"
        "fault s \<noteq> None" "run (Inr t) fl c env = Aborted (Sqlite3Error e) s"
  | (ends) s where "index_drives env (start fl c t env) = Inr s"
        "run (Inr t) fl c env = Ended (closing s)"
proof (cases "index_drives env (start fl c t env)")
  case (Inl e)
  obtain x s where e: "e = (x, s)" by (cases e)
  with Inl have "run (Inr t) fl c env = Aborted x s"
    by (simp add: run_def start_def Let_def)
  with Inl e show ?thesis by (intro walk_raises) simp_all
next
  case (Inr s)
  show ?thesis
  proof (cases rule: statement_cases [of "\<lambda>s. s\<lparr>committed := db s\<rparr>" s])
    case (raises e)
    with Inr have "run (Inr t) fl c env = Aborted (Sqlite3Error e) s"
      by (simp add: run_def start_def Let_def finish_def commit_def)
    with Inr raises(2) show ?thesis by (intro commit_raises)
  next
    case passes
    with Inr have "run (Inr t) fl c env = Ended (closing s)"
      by (simp add: run_def start_def Let_def finish_def commit_def closing_def)
    with Inr show ?thesis by (intro ends)
  qed
qed

lemma walking_start: "walking (estimated_total env) (start fl c t env)"
  by (simp add: walking_def percentage_of_zero)

lemma try_file_uncaught: "try_file r f s = Inl (x, s') \<Longrightarrow> \<not> caught x"
  by (cases rule: try_file_cases [of f r s]) (auto simp: caught_def)

lemma index_files_uncaught: "index_files r fs s = Inl (x, s') \<Longrightarrow> \<not> caught x"
proof (induction fs arbitrary: s)
  case Nil
  then show ?case by simp
next
  case (Cons f fs)
  show ?case
  proof (cases "try_file r f (tick s)")
    case (Inl e)
    with Cons.prems Cons.IH [of "tick s"] try_file_uncaught [of r f "tick s" x s']
    show ?thesis by (auto split: if_splits)
  next
    case (Inr s1)
    with Cons.prems Cons.IH [of "tick s"] Cons.IH [of s1]
    show ?thesis by (auto split: if_splits)
  qed
qed

lemma index_dirs_uncaught: "index_dirs items s = Inl (x, s') \<Longrightarrow> \<not> caught x"
proof (induction items arbitrary: s)
  case Nil
  then show ?case by simp
next
  case (Cons item items)
  obtain r ds fs where item: "item = (r, ds, fs)" by (cases item)
  show ?case
  proof (cases "index_files r fs (tick s)")
    case (Inl e)
    with Cons.prems index_files_uncaught [of r fs "tick s" x s']
    show ?thesis by (auto simp: item split: if_splits)
  next
    case (Inr s1)
    with Cons.prems Cons.IH [of s1] show ?thesis by (auto simp: item split: if_splits)
  qed
qed

lemma index_drives_step:
  "\<not> stopped s \<Longrightarrow>
   index_drives (d # ds) s =
     (case index_dirs (os_walk keep_dir (dir_name d) d)
             (emit (Progress (IndexingDrive (dir_name d)) (get_percentage (tick s))) (tick s)) of
        Inl e \<Rightarrow> Inl e
      | Inr s' \<Rightarrow> index_drives ds s')"
proof -
  assume ns: "\<not> stopped s"
  define s2 where "s2 = emit (Progress (IndexingDrive (dir_name d)) (get_percentage (tick s))) (tick s)"
  show ?thesis
  proof (cases "index_dirs (os_walk keep_dir (dir_name d) d) s2")
    case (Inl e)
    obtain x s' where e: "e = (x, s')" by (cases e)
    with Inl have "\<not> caught x" using index_dirs_uncaught by blast
    with Inl e ns show ?thesis by (simp add: Let_def s2_def [symmetric])
  next
    case (Inr s')
    with ns show ?thesis by (simp add: Let_def s2_def [symmetric])
  qed
qed

section \<open>What the loops preserve when they return\<close>

lemma try_file_ok:
  assumes "Q s" and "try_file r f s = Inr s'"
    and "\<And>st. (files_processed s + 1) mod 500 \<noteq> 0 \<Longrightarrow> Q (counted r (fname f) st s)"
    and "\<And>st. (files_processed s + 1) mod 500 = 0 \<Longrightarrow> Q (signalled (counted r (fname f) st s))"
  shows "Q s'"
  by (cases rule: try_file_cases [of f r s]) (use assms in auto)

lemma index_files_ok:
  assumes tick: "\<And>s. Q s \<Longrightarrow> Q (tick s)"
    and counted: "\<And>s r f st. Q s \<Longrightarrow> (files_processed s + 1) mod 500 \<noteq> 0
                    \<Longrightarrow> Q (counted r f st s)"
    and signalled: "\<And>s r f st. Q s \<Longrightarrow> (files_processed s + 1) mod 500 = 0
                      \<Longrightarrow> Q (signalled (counted r f st s))"
  shows "Q s \<Longrightarrow> index_files r fs s = Inr s' \<Longrightarrow> Q s'"
proof (induction fs arbitrary: s)
  case Nil
  then show ?case by simp
next
  case (Cons f fs)
  note t = tick [OF Cons.prems(1)]
  show ?case
  proof (cases "stopped s \<or> startswith (fname f) ''.''")
    case True
    with Cons.prems(2) t Cons.IH [OF t] show ?thesis by (auto split: if_splits)
  next
    case False
    show ?thesis
    proof (cases "try_file r f (tick s)")
      case (Inl e)
      with False Cons.prems(2) show ?thesis by simp
    next
      case (Inr s1)
      have "Q s1"
        by (rule try_file_ok [of Q, OF t Inr]) (simp_all add: counted [OF t] signalled [OF t])
      with Inr False Cons.prems(2) Cons.IH [of s1] show ?thesis by simp
    qed
  qed
qed

lemma index_dirs_ok:
  assumes tick: "\<And>s. Q s \<Longrightarrow> Q (tick s)"
    and counted: "\<And>s r f st. Q s \<Longrightarrow> (files_processed s + 1) mod 500 \<noteq> 0
                    \<Longrightarrow> Q (counted r f st s)"
    and signalled: "\<And>s r f st. Q s \<Longrightarrow> (files_processed s + 1) mod 500 = 0
                      \<Longrightarrow> Q (signalled (counted r f st s))"
  shows "Q s \<Longrightarrow> index_dirs items s = Inr s' \<Longrightarrow> Q s'"
proof (induction items arbitrary: s)
  case Nil
  then show ?case by simp
next
  case (Cons item items)
  obtain r ds fs where item: "item = (r, ds, fs)" by (cases item)
  note t = tick [OF Cons.prems(1)]
  show ?case
  proof (cases "stopped s")
    case True
    with Cons.prems(2) t show ?thesis by (simp add: item)
  next
    case False
    show ?thesis
    proof (cases "index_files r fs (tick s)")
      case (Inl e)
      with False Cons.prems(2) show ?thesis by (simp add: item)
    next
      case (Inr s1)
      have "Q s1"
        by (rule index_files_ok [of Q, OF tick counted signalled t Inr])
      with Inr False Cons.prems(2) Cons.IH [of s1] show ?thesis by (simp add: item)
    qed
  qed
qed

lemma index_drives_ok:
  assumes tick: "\<And>s. Q s \<Longrightarrow> Q (tick s)"
    and counted: "\<And>s r f st. Q s \<Longrightarrow> (files_processed s + 1) mod 500 \<noteq> 0
                    \<Longrightarrow> Q (counted r f st s)"
    and signalled: "\<And>s r f st. Q s \<Longrightarrow> (files_processed s + 1) mod 500 = 0
                      \<Longrightarrow> Q (signalled (counted r f st s))"
    and drive: "\<And>s d. Q s \<Longrightarrow> Q (emit (Progress (IndexingDrive d) (get_percentage s)) s)"
  shows "Q s \<Longrightarrow> index_drives env s = Inr s' \<Longrightarrow> Q s'"
proof (induction env arbitrary: s)
  case Nil
  then show ?case by simp
next
  case (Cons d ds)
  note t = tick [OF Cons.prems(1)]
  define s2 where "s2 = emit (Progress (IndexingDrive (dir_name d)) (get_percentage (tick s))) (tick s)"
  have s2: "Q s2" unfolding s2_def by (rule drive [OF t])
  show ?case
  proof (cases "stopped s")
    case True
    with Cons.prems(2) t show ?thesis by simp
  next
    case False
    note step = index_drives_step [OF False, of d ds, folded s2_def]
    show ?thesis
    proof (cases "index_dirs (os_walk keep_dir (dir_name d) d) s2")
      case (Inl e)
      with step Cons.prems(2) show ?thesis by simp
    next
      case (Inr s1)
      have "Q s1"
        by (rule index_dirs_ok [of Q, OF tick counted signalled s2 Inr])
      with Inr step Cons.prems(2) Cons.IH [of s1] show ?thesis by simp
    qed
  qed
qed

section \<open>One periodic signal for every 500 files\<close>

lemma periodic_append: "periodic (xs @ ys) = periodic xs @ periodic ys"
  by (induction xs rule: periodic.induct) simp_all

lemma split_500:
  fixes n :: int
  obtains q r where "n div 500 = q" "0 \<le> r" "r < 500"
    "(n + 1) mod 500 = (r + 1) mod 500" "(n + 1) div 500 = q + (r + 1) div 500"
    "n + 1 = 500 * q + (r + 1)"
proof -
  define q r where "q = n div 500" and "r = n mod 500"
  have n: "n = 500 * q + r" and r: "0 \<le> r" "r < 500"
    by (simp_all add: q_def r_def)
  from n have e: "n + 1 = (r + 1) + 500 * q" by simp
  have md: "(n + 1) mod 500 = (r + 1) mod 500" unfolding e by (rule mod_mult_self2)
  have dv: "(n + 1) div 500 = q + (r + 1) div 500" unfolding e by (rule div_mult_self2) simp
  from e have f: "n + 1 = 500 * q + (r + 1)" by simp
  have q: "n div 500 = q" by (simp add: q_def)
  show ?thesis by (rule that [OF q r md dv f])
qed

lemma div_500_same:
  fixes n :: int
  assumes "(n + 1) mod 500 \<noteq> 0"
  shows "(n + 1) div 500 = n div 500"
proof -
  obtain q r where a: "n div 500 = q" "0 \<le> r" "r < 500"
    "(n + 1) mod 500 = (r + 1) mod 500" "(n + 1) div 500 = q + (r + 1) div 500"
    by (rule split_500)
  have "r + 1 \<noteq> 500"
  proof
    assume "r + 1 = 500"
    with a(4) assms show False by simp
  qed
  with a(2,3) have "(r + 1) div 500 = 0" by simp
  with a(1,5) show ?thesis by simp
qed

lemma div_500_next:
  fixes n :: int
  assumes "(n + 1) mod 500 = 0"
  shows "(n + 1) div 500 = n div 500 + 1" and "500 * (n div 500 + 1) = n + 1"
proof -
  obtain q r where a: "n div 500 = q" "0 \<le> r" "r < 500"
    "(n + 1) mod 500 = (r + 1) mod 500" "(n + 1) div 500 = q + (r + 1) div 500"
    "n + 1 = 500 * q + (r + 1)"
    by (rule split_500)
  have r: "r + 1 = 500"
  proof (rule ccontr)
    assume "r + 1 \<noteq> 500"
    with a(2,3) have "(r + 1) mod 500 = r + 1" by simp
    with a(2,4) assms show False by simp
  qed
  with a(1,5) show "(n + 1) div 500 = n div 500 + 1" by simp
  from r a(1,6) show "500 * (n div 500 + 1) = n + 1" by simp
qed

lemma every_500_same:
  assumes "(fp + 1) mod 500 \<noteq> 0"
  shows "every_500 est (fp + 1) = every_500 est fp"
  unfolding every_500_def div_500_same [OF assms] by (rule refl)

lemma every_500_next:
  assumes "0 \<le> fp" and "(fp + 1) mod 500 = 0" and "0 < est"
  shows "every_500 est (fp + 1) =
           every_500 est fp @ [(fp + 1, percentage_of (fp + 1) est, percentage_of (fp + 1) est)]"
proof -
  define k where "k = fp div 500"
  define g where "g = (\<lambda>i::int. (500 * i,
               min 99 (py_int (py_fmul (py_truediv (500 * i) est) (py_float 100))),
               min 99 (py_int (py_fmul (py_truediv (500 * i) est) (py_float 100)))))"
  have d: "(fp + 1) div 500 = k + 1" and m: "500 * (k + 1) = fp + 1"
    unfolding k_def by (rule div_500_next [OF assms(2)])+
  from assms(1) have k: "0 \<le> k" by (simp add: k_def)
  then have u: "[1..k + 1] = [1..k] @ [k + 1]" by (simp add: upto_rec2)
  have p: "percentage_of (fp + 1) est =
      min 99 (py_int (py_fmul (py_truediv (fp + 1) est) (py_float 100)))"
    using assms(3) by (simp add: percentage_of_def)
  have "g (k + 1) = (fp + 1, percentage_of (fp + 1) est, percentage_of (fp + 1) est)"
    unfolding g_def m p by (rule refl)
  moreover have "every_500 est (fp + 1) = map g [1..k] @ [g (k + 1)]"
    unfolding every_500_def d u g_def by simp
  moreover have "every_500 est fp = map g [1..k]"
    unfolding every_500_def k_def g_def by (rule refl)
  ultimately show ?thesis by simp
qed

lemma on_beat_index_drives:
  "on_beat est s \<Longrightarrow> index_drives env s = Inr s' \<Longrightarrow> on_beat est s'"
proof (rule index_drives_ok [of "on_beat est"])
  show "on_beat est (tick s)" if "on_beat est s" for s
    using that by (simp add: on_beat_def)
  show "on_beat est (counted r f st s)"
    if "on_beat est s" "(files_processed s + 1) mod 500 \<noteq> 0" for s r f st
    using that by (simp add: on_beat_def every_500_same)
  show "on_beat est (signalled (counted r f st s))"
    if "on_beat est s" "(files_processed s + 1) mod 500 = 0" for s r f st
    using that
    by (simp add: on_beat_def every_500_next periodic_append get_percentage_def)
  show "on_beat est (emit (Progress (IndexingDrive d) (get_percentage s)) s)"
    if "on_beat est s" for s d
    using that by (simp add: on_beat_def periodic_append)
qed

lemma on_beat_start: "on_beat (estimated_total env) (start fl c t env)"
  using estimated_total_floor [of env] by (simp add: on_beat_def every_500_def)

section \<open>Sessions that nothing aborts\<close>

lemma stopped_None [simp]: "stop_at s = None \<Longrightarrow> \<not> stopped s"
  by (simp add: stopped_def)

lemma indexable_Nil [simp]: "indexable r [] = []"
  by (simp add: indexable_def)

lemma indexable_Cons:
  "indexable r (f # fs) =
     (case readable_at f of None \<Rightarrow> indexable r fs
      | Some st \<Rightarrow> entry_of r (fname f) st # indexable r fs)"
  by (simp add: indexable_def split: option.splits)

lemma indexable_append: "indexable r (fs @ gs) = indexable r fs @ indexable r gs"
  by (simp add: indexable_def)

lemma readable_at_hidden: "startswith (fname f) ''.'' \<Longrightarrow> readable_at f = None"
  by (simp add: readable_at_def visible_file_def)

lemma after_file_fields [simp]:
  "stop_at (after_file r f s) = stop_at s" "clock (after_file r f s) = clock s"
  "fault (after_file r f s) = fault s"
  "db (after_file r f s) =
     (case readable_at f of None \<Rightarrow> db s
      | Some st \<Rightarrow> insert_or_replace (entry_of r (fname f) st) (db s))"
  "files_processed (after_file r f s) =
     (case readable_at f of None \<Rightarrow> files_processed s | Some st \<Rightarrow> files_processed s + 1)"
  by (simp_all add: after_file_def split: option.splits)

lemma try_file_quiet:
  assumes "fault s = None" and "quiet_file f" and "\<not> startswith (fname f) ''.''"
  shows "try_file r f s = Inr (after_file r f s)"
proof -
  from assms(3) have v: "visible_file f" by (simp add: visible_file_def)
  show ?thesis
  proof (cases rule: try_file_cases [of f r s])
    case (stat_fails err)
    with v show ?thesis by (simp add: after_file_def readable_at_def)
  next
    case (date_skipped st x)
    with v show ?thesis by (simp add: after_file_def readable_at_def)
  next
    case (date_raises st x)
    with v assms(2) show ?thesis by (simp add: quiet_file_def)
  next
    case (insert_raises st e)
    with assms(1) show ?thesis by simp
  next
    case (commit_raises st e)
    with assms(1) show ?thesis by simp
  next
    case (counted st)
    with v show ?thesis by (simp add: after_file_def readable_at_def)
  next
    case (signalled st)
    with v show ?thesis by (simp add: after_file_def readable_at_def)
  qed
qed

lemma index_files_quiet:
  assumes "fault s = None" and "list_all quiet_file fs"
  shows "\<exists>s'. index_files r fs s = Inr s' \<and> fault s' = None
           \<and> (stop_at s = None \<longrightarrow>
                 stop_at s' = None
                 \<and> db s' = fold insert_or_replace (indexable r fs) (db s)
                 \<and> files_processed s' = files_processed s + int (length (indexable r fs)))"
  using assms
proof (induction fs arbitrary: s)
  case Nil
  then show ?case by simp
next
  case (Cons f fs)
  from Cons.prems have q: "quiet_file f" "list_all quiet_file fs" by simp_all
  show ?case
  proof (cases "stopped s")
    case True
    then have "stop_at s \<noteq> None" by (auto simp: stopped_def split: option.splits)
    with True Cons.prems(1) show ?thesis by auto
  next
    case ns: False
    show ?thesis
    proof (cases "startswith (fname f) ''.''")
      case True
      from Cons.prems(1) have "fault (tick s) = None" by simp
      from Cons.IH [OF this q(2)] True ns show ?thesis
        by (simp add: indexable_Cons readable_at_hidden)
    next
      case False
      from Cons.prems(1) have ft: "fault (tick s) = None" by simp
      note tf = try_file_quiet [OF ft q(1) False, of r]
      from ft have "fault (after_file r f (tick s)) = None" by simp
      from Cons.IH [OF this q(2)] tf False ns show ?thesis
        by (auto simp: indexable_Cons split: option.splits)
    qed
  qed
qed

lemma index_dirs_quiet:
  assumes "fault s = None" and "quiet_walk items"
  shows "\<exists>s'. index_dirs items s = Inr s' \<and> fault s' = None
           \<and> (stop_at s = None \<longrightarrow>
                 stop_at s' = None
                 \<and> db s' = fold insert_or_replace (walk_entries items) (db s)
                 \<and> files_processed s' = files_processed s + int (length (walk_entries items)))"
  using assms
proof (induction items arbitrary: s)
  case Nil
  then show ?case by (simp add: walk_entries_def)
next
  case (Cons item items)
  obtain r ds fs where item: "item = (r, ds, fs)" by (cases item)
  from Cons.prems(2) have q: "list_all quiet_file fs" "quiet_walk items"
    by (simp_all add: quiet_walk_def item)
  have w: "walk_entries ((r, ds, fs) # items) = indexable r fs @ walk_entries items"
    by (simp add: walk_entries_def)
  show ?case
  proof (cases "stopped s")
    case True
    then have "stop_at s \<noteq> None" by (auto simp: stopped_def split: option.splits)
    with True Cons.prems(1) show ?thesis by (auto simp: item)
  next
    case ns: False
    from Cons.prems(1) have ft: "fault (tick s) = None" by simp
    from index_files_quiet [OF ft q(1), of r]
    obtain s1 where s1: "index_files r fs (tick s) = Inr s1" "fault s1 = None"
        "stop_at s = None \<longrightarrow> stop_at s1 = None
           \<and> db s1 = fold insert_or_replace (indexable r fs) (db s)
           \<and> files_processed s1 = files_processed s + int (length (indexable r fs))"
      by auto
    from Cons.IH [OF s1(2) q(2)] s1 ns show ?thesis
      unfolding item w by auto
  qed
qed

lemma index_drives_quiet:
  assumes "fault s = None" and "quiet env"
  shows "\<exists>s'. index_drives env s = Inr s' \<and> fault s' = None
           \<and> (stop_at s = None \<longrightarrow>
                 stop_at s' = None
                 \<and> db s' = fold insert_or_replace (env_entries env) (db s)
                 \<and> files_processed s' = files_processed s + int (length (env_entries env)))"
  using assms
proof (induction env arbitrary: s)
  case Nil
  then show ?case by (simp add: env_entries_def)
next
  case (Cons d ds)
  from Cons.prems(2) have q: "quiet_walk (os_walk keep_dir (dir_name d) d)" "quiet ds"
    by (simp_all add: quiet_def)
  have w: "env_entries (d # ds) = walk_entries (os_walk keep_dir (dir_name d) d) @ env_entries ds"
    by (simp add: env_entries_def)
  show ?case
  proof (cases "stopped s")
    case True
    then have "stop_at s \<noteq> None" by (auto simp: stopped_def split: option.splits)
    with True Cons.prems(1) show ?thesis by auto
  next
    case ns: False
    define s2 where "s2 = emit (Progress (IndexingDrive (dir_name d)) (get_percentage (tick s))) (tick s)"
    from Cons.prems(1) have ft: "fault s2 = None" by (simp add: s2_def)
    have s2: "stop_at s2 = stop_at s" "db s2 = db s" "files_processed s2 = files_processed s"
      by (simp_all add: s2_def)
    from index_dirs_quiet [OF ft q(1)]
    obtain s1 where s1: "index_dirs (os_walk keep_dir (dir_name d) d) s2 = Inr s1" "fault s1 = None"
        "stop_at s = None \<longrightarrow> stop_at s1 = None
           \<and> db s1 = fold insert_or_replace (walk_entries (os_walk keep_dir (dir_name d) d)) (db s)
           \<and> files_processed s1 = files_processed s
                + int (length (walk_entries (os_walk keep_dir (dir_name d) d)))"
      unfolding s2 by auto
    note step = index_drives_step [OF ns, of d ds, folded s2_def]
    from Cons.IH [OF s1(2) q(2)] s1 show ?thesis
      unfolding step w by auto
  qed
qed

lemma run_quiet:
  assumes "quiet env"
  shows "\<exists>s. run (Inr t) None c env = Ended s
           \<and> (c = None \<longrightarrow>
                 db s = fold insert_or_replace (env_entries env) t
                 \<and> committed s = db s
                 \<and> files_processed s = int (length (env_entries env)))"
proof -
  have f: "fault (start None c t env) = None" by simp
  from index_drives_quiet [OF f assms]
  obtain s4 where s4: "index_drives env (start None c t env) = Inr s4" "fault s4 = None"
      "c = None \<longrightarrow> db s4 = fold insert_or_replace (env_entries env) t
         \<and> files_processed s4 = int (length (env_entries env))"
    by auto
  show ?thesis
  proof (cases rule: run_cases [of env None c t])
    case (walk_raises x s)
    with s4 show ?thesis by simp
  next
    case (commit_raises e s)
    with s4 show ?thesis by simp
  next
    case (ends s)
    with s4 show ?thesis by auto
  qed
qed

section \<open>Once the flag is set\<close>

lemma later_0 [simp]: "later 0 s = s"
  by (simp add: later_def)

lemma later_later [simp]: "later k (later j s) = later (j + k) s"
  by (simp add: later_def)

lemma tick_later: "tick s = later 1 s"
  by (simp add: tick_def later_def)

lemma stopped_later: "stopped s \<Longrightarrow> stopped (later k s)"
  by (auto simp: stopped_def later_def split: option.splits)

lemma stopped_tick: "stopped s \<Longrightarrow> stopped (tick s)"
  by (simp add: tick_later stopped_later)

lemma stopped_cong: "stop_at s' = stop_at s \<Longrightarrow> clock s' = clock s \<Longrightarrow> stopped s' = stopped s"
  by (simp add: stopped_def split: option.splits)

lemma index_files_stopped:
  "stopped s \<Longrightarrow> index_files r fs s = Inr (if fs = [] then s else tick s)"
  by (cases fs) simp_all

lemma index_dirs_stopped:
  "stopped s \<Longrightarrow> index_dirs items s = Inr (if items = [] then s else tick s)"
proof (cases items)
  case Nil
  then show ?thesis by simp
next
  case (Cons item rest)
  assume "stopped s"
  then show ?thesis by (cases item) (simp add: Cons)
qed

lemma index_drives_stopped:
  "stopped s \<Longrightarrow> index_drives ds s = Inr (if ds = [] then s else tick s)"
  by (cases ds) simp_all

lemma index_dirs_unfold:
  "\<not> stopped s \<Longrightarrow>
   index_dirs ((r, dirs, fs) # items) s = and_then (index_files r fs (tick s)) (index_dirs items)"
  by (simp add: and_then_def)

lemma index_drives_unfold:
  "\<not> stopped s \<Longrightarrow>
   index_drives (d # ds) s =
     and_then (index_dirs (os_walk keep_dir (dir_name d) d)
                 (emit (Progress (IndexingDrive (dir_name d)) (get_percentage (tick s))) (tick s)))
              (index_drives ds)"
  unfolding and_then_def by (rule index_drives_step)

lemma rest_stopped:
  assumes "stopped s"
  shows "\<exists>k\<le>3. and_then (and_then (index_files r fs s) (index_dirs items)) (index_drives ds)
                 = Inr (later k s)"
proof -
  define k1 :: nat where "k1 = (if fs = [] then 0 else 1)"
  define k2 :: nat where "k2 = (if items = [] then 0 else 1)"
  define k3 :: nat where "k3 = (if ds = [] then 0 else 1)"
  have 1: "index_files r fs s = Inr (later k1 s)"
    by (simp add: index_files_stopped [OF assms] k1_def tick_later)
  have s1: "stopped (later k1 s)" by (rule stopped_later [OF assms])
  have 2: "index_dirs items (later k1 s) = Inr (later (k1 + k2) s)"
    by (simp add: index_dirs_stopped [OF s1] k2_def tick_later)
  have s2: "stopped (later (k1 + k2) s)" by (rule stopped_later [OF assms])
  have 3: "index_drives ds (later (k1 + k2) s) = Inr (later (k1 + k2 + k3) s)"
    by (simp add: index_drives_stopped [OF s2] k3_def tick_later)
  have "and_then (and_then (index_files r fs s) (index_dirs items)) (index_drives ds)
          = Inr (later (k1 + k2 + k3) s)"
    by (simp add: and_then_def 1 2 3)
  moreover have "k1 + k2 + k3 \<le> 3" by (simp add: k1_def k2_def k3_def)
  ultimately show ?thesis by blast
qed

lemma try_file_clock:
  "stop_at (state_of (try_file r f s)) = stop_at s \<and> clock (state_of (try_file r f s)) = clock s"
  by (rule try_file_preserves [of "\<lambda>s'. stop_at s' = stop_at s \<and> clock s' = clock s"]) simp_all

lemma try_file_count:
  "files_processed (state_of (try_file r f s)) \<le> files_processed s + 1"
  by (rule try_file_preserves [of "\<lambda>s'. files_processed s' \<le> files_processed s + 1"]) simp_all

lemma index_files_single:
  "\<not> stopped s \<Longrightarrow>
   index_files r [f] s =
     (if startswith (fname f) ''.'' then Inr (tick s) else try_file r f (tick s))"
  by (cases "try_file r f (tick s)") simp_all

lemma request_during_file:
  assumes "stop_at s = Some (Suc (clock s))"
  shows "\<exists>k\<le>3. and_then (and_then (index_files r (f # fs) s) (index_dirs items)) (index_drives ds)
                 = and_then (index_files r [f] s) (\<lambda>s1. Inr (s1\<lparr>clock := clock s1 + k\<rparr>))"
    and "files_processed (state_of (index_files r [f] s)) \<le> files_processed s + 1"
proof -
  from assms have ns: "\<not> stopped s" and st: "stopped (tick s)"
    by (simp_all add: stopped_def)
  note single = index_files_single [OF ns, of r f]
  show "files_processed (state_of (index_files r [f] s)) \<le> files_processed s + 1"
    using try_file_count [of r f "tick s"] unfolding single by simp
  show "\<exists>k\<le>3. and_then (and_then (index_files r (f # fs) s) (index_dirs items)) (index_drives ds)
                 = and_then (index_files r [f] s) (\<lambda>s1. Inr (s1\<lparr>clock := clock s1 + k\<rparr>))"
  proof (cases "startswith (fname f) ''.''")
    case True
    from rest_stopped [OF st, of r fs items ds] True ns show ?thesis
      unfolding single by (simp add: and_then_def later_def)
  next
    case False
    show ?thesis
    proof (cases "try_file r f (tick s)")
      case (Inl e)
      with False ns have "and_then (and_then (index_files r (f # fs) s) (index_dirs items)) (index_drives ds)
                 = and_then (index_files r [f] s) (\<lambda>s1. Inr (s1\<lparr>clock := clock s1 + 0\<rparr>))"
        unfolding single by (simp add: and_then_def)
      then show ?thesis by blast
    next
      case (Inr s')
      with try_file_clock [of r f "tick s"] have "stopped s' = stopped (tick s)"
        by (simp add: stopped_cong)
      with st have "stopped s'" by simp
      from rest_stopped [OF this, of r fs items ds] False ns Inr show ?thesis
        unfolding single by (simp add: and_then_def later_def)
    qed
  qed
qed

lemma run_stopped_at_once:
  "run (Inr t) None (Some 0) env =
     Ended (closing (if env = [] then start None (Some 0) t env
                     else tick (start None (Some 0) t env)))"
proof -
  have st: "stopped (start None (Some 0) t env)" by (simp add: stopped_def)
  note d = index_drives_stopped [OF st, of env]
  show ?thesis
  proof (cases rule: run_cases [of env None "Some 0" t])
    case (walk_raises x s)
    with d show ?thesis by simp
  next
    case (commit_raises e s)
    with d show ?thesis by (auto split: if_splits)
  next
    case (ends s)
    with d show ?thesis by simp
  qed
qed

section \<open>The outcomes of a session\<close>

lemma index_drives_fault: "fault (state_of (index_drives env s)) = fault s"
  by (rule index_drives_preserves [of "\<lambda>s'. fault s' = fault s"]) simp_all

lemma run_outcome:
  obtains (aborted) x s where "run (Inr t) fl c env = Aborted x s"
        "s = state_of (index_drives env (start fl c t env))" "fl \<noteq> None \<or> \<not> quiet env"
  | (ended) s where "run (Inr t) fl c env = Ended (closing s)"
        "index_drives env (start fl c t env) = Inr s"
proof (cases rule: run_cases [of env fl c t])
  case (walk_raises x s)
  have "fl \<noteq> None \<or> \<not> quiet env"
  proof (rule ccontr)
    assume "\<not> (fl \<noteq> None \<or> \<not> quiet env)"
    then have "fl = None" "quiet env" by blast+
    then have "fault (start fl c t env) = None" "quiet env" by simp_all
    from index_drives_quiet [OF this] walk_raises(1) show False by simp
  qed
  with walk_raises show ?thesis by (intro aborted) simp_all
next
  case (commit_raises e s)
  with index_drives_fault [of env "start fl c t env"] have "fl \<noteq> None" by simp
  with commit_raises show ?thesis by (intro aborted) simp_all
next
  case (ends s)
  then show ?thesis by (intro ended) simp_all
qed

lemma run_ends: "quiet env \<Longrightarrow> \<exists>s. run (Inr t) None c env = Ended s"
  using run_quiet [of env t c] by blast


lemma walking_range:
  assumes "walking est s"
  shows "\<forall>m p. Progress m p \<in> set (signals s) \<longrightarrow> 0 \<le> p \<and> p \<le> 99"
    and "Finished \<notin> set (signals s)"
    and "\<forall>p\<in>set (percentages (signals s)). 0 \<le> p \<and> p \<le> 99"
    and "sorted (percentages (signals s))"
    and "sorted (processed_counts (signals s))"
    and "sorted (percentages (signals (closing s)))"
    and "sorted (processed_counts (signals (closing s)))"
    and "\<forall>n q p. Progress (Indexed n q) p \<in> set (signals s) \<longrightarrow>
            p = percentage_of n est \<and> q = p \<and> 0 < n \<and> n mod 500 = 0"
proof -
  from assms have a: "0 \<le> files_processed s" "total_files_estimated s = est"
      "list_all (walking_signal est (files_processed s)) (signals s)"
      "sorted (percentages (signals s))" "sorted (processed_counts (signals s))"
    by (simp_all add: walking_def)
  show "\<forall>m p. Progress m p \<in> set (signals s) \<longrightarrow> 0 \<le> p \<and> p \<le> 99"
  proof (intro allI impI)
    fix m p
    assume "Progress m p \<in> set (signals s)"
    with a(3) have "walking_signal est (files_processed s) (Progress m p)"
      unfolding list_all_iff by blast
    from walking_signal_percentage [OF this a(1)] percentage_of_range(2) [OF a(1), of est]
    show "0 \<le> p \<and> p \<le> 99" by simp
  qed
  show "Finished \<notin> set (signals s)"
  proof
    assume "Finished \<in> set (signals s)"
    with a(3) have "walking_signal est (files_processed s) Finished"
      unfolding list_all_iff by blast
    then show False by simp
  qed
  show r: "\<forall>p\<in>set (percentages (signals s)). 0 \<le> p \<and> p \<le> 99"
    using walking_percentages [OF a(3) a(1)] percentage_of_range(2) [OF a(1), of est]
    by fastforce
  show "sorted (percentages (signals s))" by (rule a(4))
  show "sorted (processed_counts (signals s))" by (rule a(5))
  show "sorted (percentages (signals (closing s)))"
    using a(4) r by (fastforce simp: percentages_append sorted_append)
  show "sorted (processed_counts (signals (closing s)))"
    using a(5) walking_counts [OF a(3)]
    by (simp add: processed_counts_append sorted_append)
  show "\<forall>n q p. Progress (Indexed n q) p \<in> set (signals s) \<longrightarrow>
            p = percentage_of n est \<and> q = p \<and> 0 < n \<and> n mod 500 = 0"
  proof (intro allI impI)
    fix n q p
    assume "Progress (Indexed n q) p \<in> set (signals s)"
    with a(3) have "walking_signal est (files_processed s) (Progress (Indexed n q) p)"
      unfolding list_all_iff by blast
    then show "p = percentage_of n est \<and> q = p \<and> 0 < n \<and> n mod 500 = 0" by simp
  qed
qed

lemma run_walking:
  "walking (estimated_total env) (state_of (index_drives env (start fl c t env)))"
  by (rule walking_index_drives [OF walking_start])

lemma percentage_of_formula:
  "0 < est \<Longrightarrow>
   percentage_of n est = min 99 (py_int (py_fmul (py_truediv n est) (py_float 100)))"
  by (simp add: percentage_of_def)

lemma visible_numbered: "visible_file (readable (numbered i))"
  by (simp add: visible_file_def readable_def numbered_def startswith_def)

lemma readable_at_readable:
  "visible_file (readable n) \<Longrightarrow>
   readable_at (readable n) = Some \<lparr>st_size = 10, st_mtime = 1700000000\<rparr>"
  by (simp add: readable_at_def readable_def fromtimestamp_def)

lemma quiet_file_readable: "quiet_file (readable n)"
  by (simp add: quiet_file_def readable_def fromtimestamp_def)

lemma filter_visible_numbered:
  "filter visible_file (map (\<lambda>i. readable (numbered i)) xs) = map (\<lambda>i. readable (numbered i)) xs"
  by (induction xs) (simp_all add: visible_numbered)

lemma length_indexable_numbered:
  "length (indexable r (map (\<lambda>i. readable (numbered i)) xs)) = length xs"
  by (induction xs) (simp_all add: indexable_Cons readable_at_readable visible_numbered)

lemma quiet_five_hundred_files: "quiet [five_hundred_files]"
  by (simp add: quiet_def five_hundred_files_def quiet_walk_def list_all_iff quiet_file_readable
      del: upt_rec_numeral)

lemma entries_five_hundred_files: "length (env_entries [five_hundred_files]) = 500"
  by (simp add: env_entries_def five_hundred_files_def walk_entries_def length_indexable_numbered
      del: upt_rec_numeral)

lemma samples_five_hundred_files:
  "sample_drives [five_hundred_files] (0, 0) = (1, 500)"
  "count_drives [five_hundred_files] (0, 0) = (1, 0)"
  by (simp_all add: five_hundred_files_def Let_def filter_visible_numbered del: upt_rec_numeral)

lemma estimate_five_hundred_files: "estimated_total [five_hundred_files] = 50000"
proof -
  have "max 1000 (py_int (py_fmul (py_truediv 500 1)
          (py_float (max 100 (py_int (py_fmul (py_truediv 0 1) (py_float 50))))))) = 50000"
    by code_simp
  then show ?thesis
    unfolding estimated_total_def estimate_dir_count_def samples_five_hundred_files
    by (simp add: Let_def)
qed

lemma beat_five_hundred_files: "every_500 50000 500 = [(500, 1, 1)]"
  by code_simp

lemma quiet_nine_and_one: "quiet [nine_and_one]"
  by code_simp

lemma quiet_twelve_files: "quiet [twelve_files]"
  by code_simp

section \<open>The claims\<close>

text \<open>
  C1, as stated, fails: a session whose cancellation is requested while the second file is
  being processed stops after two of nine files and still emits the terminal progress signal
  with percentage 100, followed by the finished signal.
\<close>

theorem cancelled_run_emits_100:
  "emitted (run (Inr []) None (Some 4) [nine_and_one]) =
     [Progress Estimating 0, Progress (Estimated 1000) 0, Progress (IndexingDrive ''/'') 0,
      Progress (Completed 2) 100, Finished]"
  by code_simp

text \<open>
  C1, amended. In a session that no exception aborts, cancelled or not, the periodic progress
  signals are exactly one for each full 500 of processed files, in order: the \<open>i\<close>-th shows
  the count \<open>500 * i\<close> and carries, in its message and as its percentage, the value of
  \<^verbatim>\<open>min(99, int((files_processed / total_files_estimated) * 100))\<close> as Python's float
  arithmetic computes it, for the estimate computed at the start. Every signal before the
  terminal one carries a percentage in \<open>[0, 99]\<close>, and the session ends with exactly one
  progress signal of percentage 100 followed by the finished signal. A session that an
  exception aborts emits neither of the two: its periodic signals carry the same formula at
  multiples of 500, and all its percentages lie in \<open>[0, 99]\<close>. No exception aborts a session
  whose store accepts every statement and whose files all have a time that can be formatted.
  (The float value can be one below the exact floor: \<open>float_percentage_below_exact_floor\<close>.)
\<close>

theorem percentage_and_terminal_signal:
  "(case run (Inr t) failing cancel env of
      OpenFailed e \<Rightarrow> False
    | Aborted x s \<Rightarrow>
        (\<forall>n q p. Progress (Indexed n q) p \<in> set (signals s) \<longrightarrow>
            p = min 99 (py_int (py_fmul (py_truediv n (total_files_estimated s)) (py_float 100)))
            \<and> q = p \<and> 0 < n \<and> n mod 500 = 0)
        \<and> (\<forall>m p. Progress m p \<in> set (signals s) \<longrightarrow> 0 \<le> p \<and> p \<le> 99)
        \<and> Finished \<notin> set (signals s)
    | Ended s \<Rightarrow>
        total_files_estimated s = estimated_total env
        \<and> (\<exists>pre. signals s = pre @ [Progress (Completed (files_processed s)) 100, Finished]
             \<and> periodic pre = every_500 (total_files_estimated s) (files_processed s)
             \<and> (\<forall>m p. Progress m p \<in> set pre \<longrightarrow> 0 \<le> p \<and> p \<le> 99)
             \<and> Finished \<notin> set pre))
   \<and> (failing = None \<and> quiet env \<longrightarrow> (\<exists>s. run (Inr t) failing cancel env = Ended s))"
proof
  define z where "z = state_of (index_drives env (start failing cancel t env))"
  have wz: "walking (estimated_total env) z" unfolding z_def by (rule run_walking)
  note w = walking_range [OF wz]
  have est: "0 < estimated_total env" using estimated_total_floor [of env] by simp
  have tz: "total_files_estimated z = estimated_total env"
    using wz by (simp add: walking_def)
  show "case run (Inr t) failing cancel env of
      OpenFailed e \<Rightarrow> False
    | Aborted x s \<Rightarrow>
        (\<forall>n q p. Progress (Indexed n q) p \<in> set (signals s) \<longrightarrow>
            p = min 99 (py_int (py_fmul (py_truediv n (total_files_estimated s)) (py_float 100)))
            \<and> q = p \<and> 0 < n \<and> n mod 500 = 0)
        \<and> (\<forall>m p. Progress m p \<in> set (signals s) \<longrightarrow> 0 \<le> p \<and> p \<le> 99)
        \<and> Finished \<notin> set (signals s)
    | Ended s \<Rightarrow>
        total_files_estimated s = estimated_total env
        \<and> (\<exists>pre. signals s = pre @ [Progress (Completed (files_processed s)) 100, Finished]
             \<and> periodic pre = every_500 (total_files_estimated s) (files_processed s)
             \<and> (\<forall>m p. Progress m p \<in> set pre \<longrightarrow> 0 \<le> p \<and> p \<le> 99)
             \<and> Finished \<notin> set pre)"
  proof (cases rule: run_outcome [of t failing cancel env])
    case (aborted x s)
    then have s: "s = z" by (simp add: z_def)
    from w(8) have "\<forall>n q p. Progress (Indexed n q) p \<in> set (signals z) \<longrightarrow>
            p = min 99 (py_int (py_fmul (py_truediv n (total_files_estimated z)) (py_float 100)))
            \<and> q = p \<and> 0 < n \<and> n mod 500 = 0"
      by (simp add: tz percentage_of_formula [OF est])
    with w(1,2) aborted(1) show ?thesis by (simp only: session.case s) blast
  next
    case (ended s)
    then have s: "s = z" by (simp add: z_def)
    from on_beat_index_drives [OF on_beat_start ended(2)]
    have "periodic (signals z) = every_500 (total_files_estimated z) (files_processed z)"
      by (simp add: on_beat_def s)
    moreover have "signals (closing z) =
        signals z @ [Progress (Completed (files_processed (closing z))) 100, Finished]"
      by simp
    ultimately have "\<exists>pre. signals (closing z)
               = pre @ [Progress (Completed (files_processed (closing z))) 100, Finished]
             \<and> periodic pre = every_500 (total_files_estimated (closing z)) (files_processed (closing z))
             \<and> (\<forall>m p. Progress m p \<in> set pre \<longrightarrow> 0 \<le> p \<and> p \<le> 99)
             \<and> Finished \<notin> set pre"
      using w(1,2) by (intro exI [of _ "signals z"]) simp
    moreover have "total_files_estimated (closing z) = estimated_total env" by (simp add: tz)
    ultimately show ?thesis using ended(1) by (simp only: session.case s)
  qed
  show "failing = None \<and> quiet env \<longrightarrow> (\<exists>s. run (Inr t) failing cancel env = Ended s)"
    using run_ends by blast
qed

theorem percentage_and_terminal_signal_witness:
  "quiet [five_hundred_files]
   \<and> (\<exists>s pre. run (Inr []) None None [five_hundred_files] = Ended s
        \<and> signals s = pre @ [Progress (Completed 500) 100, Finished]
        \<and> periodic pre = [(500, 1, 1)])"
proof -
  note q = quiet_five_hundred_files
  note th = percentage_and_terminal_signal [where t = "[]" and failing = None and cancel = None
      and env = "[five_hundred_files]"]
  obtain s where s: "run (Inr []) None None [five_hundred_files] = Ended s"
      "files_processed s = int (length (env_entries [five_hundred_files]))"
    using run_quiet [OF q, of "[]" None] by blast
  from th have "case run (Inr []) None None [five_hundred_files] of
      OpenFailed e \<Rightarrow> False
    | Aborted x s \<Rightarrow>
        (\<forall>n q p. Progress (Indexed n q) p \<in> set (signals s) \<longrightarrow>
            p = min 99 (py_int (py_fmul (py_truediv n (total_files_estimated s)) (py_float 100)))
            \<and> q = p \<and> 0 < n \<and> n mod 500 = 0)
        \<and> (\<forall>m p. Progress m p \<in> set (signals s) \<longrightarrow> 0 \<le> p \<and> p \<le> 99)
        \<and> Finished \<notin> set (signals s)
    | Ended s \<Rightarrow>
        total_files_estimated s = estimated_total [five_hundred_files]
        \<and> (\<exists>pre. signals s = pre @ [Progress (Completed (files_processed s)) 100, Finished]
             \<and> periodic pre = every_500 (total_files_estimated s) (files_processed s)
             \<and> (\<forall>m p. Progress m p \<in> set pre \<longrightarrow> 0 \<le> p \<and> p \<le> 99)
             \<and> Finished \<notin> set pre)"
    by (rule conjunct1)
  with s(1) obtain pre where pre: "total_files_estimated s = estimated_total [five_hundred_files]"
      "signals s = pre @ [Progress (Completed (files_processed s)) 100, Finished]"
      "periodic pre = every_500 (total_files_estimated s) (files_processed s)"
    by auto
  have fp: "files_processed s = 500" by (simp only: s(2) entries_five_hundred_files of_nat_numeral)
  have "periodic pre = [(500, 1, 1)]"
    by (simp only: pre(3) pre(1) fp estimate_five_hundred_files beat_five_hundred_files)
  with s(1) pre(2) fp q show ?thesis by auto
qed



text \<open>
  C5. In every session, however it ends, the sequence of emitted percentages is
  non-decreasing and so is the sequence of processed counts that the progress messages show.
  The percentages lie in \<open>[0, 99]\<close> up to the terminal progress signal, which carries 100
  and which ends every session that no exception aborts, cancelled or not. No exception
  aborts a session whose store accepts every statement and whose files all have a time that
  can be formatted.
\<close>

theorem monotonic_progress:
  "(case run (Inr t) failing cancel env of
      OpenFailed e \<Rightarrow> False
    | Aborted x s \<Rightarrow>
        (\<forall>p\<in>set (percentages (signals s)). 0 \<le> p \<and> p \<le> 99)
        \<and> sorted (percentages (signals s))
        \<and> sorted (processed_counts (signals s))
    | Ended s \<Rightarrow>
        (\<exists>pre. signals s = pre @ [Progress (Completed (files_processed s)) 100, Finished]
           \<and> (\<forall>p\<in>set (percentages pre). 0 \<le> p \<and> p \<le> 99)
           \<and> sorted (percentages (signals s))
           \<and> sorted (processed_counts (signals s))))
   \<and> (failing = None \<and> quiet env \<longrightarrow> (\<exists>s. run (Inr t) failing cancel env = Ended s))"
proof
  note w = walking_range [OF run_walking [of env failing cancel t]]
  show "case run (Inr t) failing cancel env of
      OpenFailed e \<Rightarrow> False
    | Aborted x s \<Rightarrow>
        (\<forall>p\<in>set (percentages (signals s)). 0 \<le> p \<and> p \<le> 99)
        \<and> sorted (percentages (signals s))
        \<and> sorted (processed_counts (signals s))
    | Ended s \<Rightarrow>
        (\<exists>pre. signals s = pre @ [Progress (Completed (files_processed s)) 100, Finished]
           \<and> (\<forall>p\<in>set (percentages pre). 0 \<le> p \<and> p \<le> 99)
           \<and> sorted (percentages (signals s))
           \<and> sorted (processed_counts (signals s)))"
  proof (cases rule: run_outcome [of t failing cancel env])
    case (aborted x s)
    with w(3,4,5) show ?thesis by simp
  next
    case (ended s)
    then have s: "s = state_of (index_drives env (start failing cancel t env))" by simp
    have "signals (closing s) =
        signals s @ [Progress (Completed (files_processed (closing s))) 100, Finished]"
      by simp
    with w(3,6,7) [folded s] ended(1) show ?thesis by (simp only: session.case) blast
  qed
  show "failing = None \<and> quiet env \<longrightarrow> (\<exists>s. run (Inr t) failing cancel env = Ended s)"
    using run_ends by blast
qed

theorem monotonic_progress_witness:
  "quiet [nine_and_one]
   \<and> (\<exists>s. run (Inr []) None None [nine_and_one] = Ended s
        \<and> percentages (signals s) = [0, 0, 0, 100]
        \<and> processed_counts (signals s) = [9]
        \<and> sorted (percentages (signals s))
        \<and> sorted (processed_counts (signals s)))"
proof -
  note q = quiet_nine_and_one
  note th = monotonic_progress [where t = "[]" and failing = None and cancel = None
      and env = "[nine_and_one]"]
  from th q obtain s where s: "run (Inr []) None None [nine_and_one] = Ended s" by blast
  from th have "case run (Inr []) None None [nine_and_one] of
      OpenFailed e \<Rightarrow> False
    | Aborted x s \<Rightarrow>
        (\<forall>p\<in>set (percentages (signals s)). 0 \<le> p \<and> p \<le> 99)
        \<and> sorted (percentages (signals s))
        \<and> sorted (processed_counts (signals s))
    | Ended s \<Rightarrow>
        (\<exists>pre. signals s = pre @ [Progress (Completed (files_processed s)) 100, Finished]
           \<and> (\<forall>p\<in>set (percentages pre). 0 \<le> p \<and> p \<le> 99)
           \<and> sorted (percentages (signals s))
           \<and> sorted (processed_counts (signals s)))"
    by (rule conjunct1)
  with s have so: "sorted (percentages (signals s))" "sorted (processed_counts (signals s))"
    by auto
  have "emitted (run (Inr []) None None [nine_and_one]) =
      [Progress Estimating 0, Progress (Estimated 1000) 0, Progress (IndexingDrive ''/'') 0,
       Progress (Completed 9) 100, Finished]"
    by code_simp
  with s have "signals s =
      [Progress Estimating 0, Progress (Estimated 1000) 0, Progress (IndexingDrive ''/'') 0,
       Progress (Completed 9) 100, Finished]"
    by (simp add: emitted_def)
  then have "percentages (signals s) = [0, 0, 0, 100]" "processed_counts (signals s) = [9]"
    by simp_all
  with s so q show ?thesis by blast
qed

text \<open>
  C6. A file whose \<^verbatim>\<open>os.stat\<close> fails is skipped, and the root with nine readable files and
  one unreadable file ends with all nine stored. A file whose \<^verbatim>\<open>os.stat\<close> answers with a
  modification time outside the years 1 to 9999 is not skipped: \<^verbatim>\<open>datetime.fromtimestamp\<close>
  raises \<^verbatim>\<open>ValueError\<close>, neither \<^verbatim>\<open>except (PermissionError, OSError)\<close> catches it, and \<^verbatim>\<open>run\<close> is
  left by the exception. In a root with the files \<^verbatim>\<open>a\<close>, \<^verbatim>\<open>far\<close> and \<^verbatim>\<open>b\<close>, where \<^verbatim>\<open>far\<close> was
  modified in the first second of the year 10000, the walk is aborted at \<^verbatim>\<open>far\<close>: \<^verbatim>\<open>b\<close> is
  never visited, and neither the terminal progress signal nor the finished signal is
  emitted.
\<close>

theorem unformattable_time_aborts_walk:
  "raised (run (Inr []) None None [year_10000]) = Some ValueError
   \<and> emitted (run (Inr []) None None [year_10000]) =
       [Progress Estimating 0, Progress (Estimated 1000) 0, Progress (IndexingDrive ''/'') 0]
   \<and> stored (run (Inr []) None None [year_10000]) = [''a'']
   \<and> raised (run (Inr []) None None [nine_and_one]) = None
   \<and> stored (run (Inr []) None None [nine_and_one]) =
       [''a'', ''b'', ''c'', ''d'', ''e'', ''f'', ''g'', ''h'', ''i'']"
  by code_simp

text \<open>
  C7. The stop flag is read at the head of every iteration of the drive loop, of the
  directory loop and of the file loop, and a read that sees it set leaves the loop. If the
  request arrives while a file \<open>f\<close> is being processed (the read that admitted \<open>f\<close> saw the
  flag unset, the next read sees it set), then what the walk still does (the remaining files
  of the directory, the remaining directories of the drive, the remaining drives) is what
  processing \<open>f\<close> alone does, followed by at most three more reads of the flag, one for each
  loop it leaves: at most that one file is stored and counted, no other file is looked at,
  no directory or drive is entered, and no signal is emitted. An exception raised by \<open>f\<close>
  ends the walk as well. A loop that is entered with the flag set does nothing but the one
  read: no file, directory or drive is processed. The last two equations say that the
  directory loop and the drive loop continue with the state their inner loop leaves, which
  is how the three loops are composed in the first statement.
\<close>

theorem cancellation_latency:
  assumes "stop_at s = Some (Suc (clock s))" and "stopped s0"
  shows "(\<exists>k\<le>3. and_then (and_then (index_files r (f # fs) s) (index_dirs items)) (index_drives ds)
                 = and_then (index_files r [f] s) (\<lambda>s1. Inr (s1\<lparr>clock := clock s1 + k\<rparr>)))
       \<and> files_processed (state_of (index_files r [f] s)) \<le> files_processed s + 1
       \<and> index_files r fs s0 = Inr (if fs = [] then s0 else tick s0)
       \<and> index_dirs items s0 = Inr (if items = [] then s0 else tick s0)
       \<and> index_drives ds s0 = Inr (if ds = [] then s0 else tick s0)
       \<and> (\<not> stopped s1 \<longrightarrow>
            index_dirs ((r, dirs, fs) # items) s1
              = and_then (index_files r fs (tick s1)) (index_dirs items))
       \<and> (\<not> stopped s1 \<longrightarrow>
            index_drives (d # ds) s1
              = and_then (index_dirs (os_walk keep_dir (dir_name d) d)
                            (emit (Progress (IndexingDrive (dir_name d)) (get_percentage (tick s1)))
                               (tick s1)))
                         (index_drives ds))"
proof (intro conjI impI)
  show "\<exists>k\<le>3. and_then (and_then (index_files r (f # fs) s) (index_dirs items)) (index_drives ds)
                 = and_then (index_files r [f] s) (\<lambda>s1. Inr (s1\<lparr>clock := clock s1 + k\<rparr>))"
    by (rule request_during_file(1) [OF assms(1)])
  show "files_processed (state_of (index_files r [f] s)) \<le> files_processed s + 1"
    by (rule request_during_file(2) [OF assms(1)])
  show "index_files r fs s0 = Inr (if fs = [] then s0 else tick s0)"
    by (rule index_files_stopped [OF assms(2)])
  show "index_dirs items s0 = Inr (if items = [] then s0 else tick s0)"
    by (rule index_dirs_stopped [OF assms(2)])
  show "index_drives ds s0 = Inr (if ds = [] then s0 else tick s0)"
    by (rule index_drives_stopped [OF assms(2)])
next
  assume "\<not> stopped s1"
  then show "index_dirs ((r, dirs, fs) # items) s1
              = and_then (index_files r fs (tick s1)) (index_dirs items)"
    by (rule index_dirs_unfold)
next
  assume "\<not> stopped s1"
  then show "index_drives (d # ds) s1
              = and_then (index_dirs (os_walk keep_dir (dir_name d) d)
                            (emit (Progress (IndexingDrive (dir_name d)) (get_percentage (tick s1)))
                               (tick s1)))
                         (index_drives ds)"
    by (rule index_drives_unfold)
qed

theorem cancellation_latency_witness:
  "stop_at (init_indexer None (Some 1) []) = Some (Suc (clock (init_indexer None (Some 1) [])))
   \<and> stopped (init_indexer None (Some 0) [])
   \<and> \<not> stopped (init_indexer None None [])
   \<and> (\<exists>k\<le>3. and_then (and_then (index_files ''/'' [readable ''a'', readable ''b'']
                                     (init_indexer None (Some 1) []))
                                  (index_dirs [(''/x'', [], [readable ''c''])]))
                        (index_drives [nine_and_one])
               = and_then (index_files ''/'' [readable ''a''] (init_indexer None (Some 1) []))
                          (\<lambda>s1. Inr (s1\<lparr>clock := clock s1 + k\<rparr>)))
   \<and> map (\<lambda>r. name (snd r))
         (db (state_of (and_then (and_then (index_files ''/'' [readable ''a'', readable ''b'']
                                              (init_indexer None (Some 1) []))
                                           (index_dirs [(''/x'', [], [readable ''c''])]))
                                 (index_drives [nine_and_one])))) = [''a'']
   \<and> index_dirs [(''/x'', [], [readable ''c''])] (init_indexer None (Some 0) [])
       = Inr (tick (init_indexer None (Some 0) []))
   \<and> index_drives [nine_and_one] (init_indexer None (Some 0) [])
       = Inr (tick (init_indexer None (Some 0) []))
   \<and> index_dirs [(''/'', [], [readable ''b'']), (''/x'', [], [readable ''c''])]
         (init_indexer None None [])
       = and_then (index_files ''/'' [readable ''b''] (tick (init_indexer None None [])))
                  (index_dirs [(''/x'', [], [readable ''c''])])"
proof -
  have h1: "stop_at (init_indexer None (Some 1) [])
              = Some (Suc (clock (init_indexer None (Some 1) [])))"
    by (simp add: init_indexer_def)
  have h2: "stopped (init_indexer None (Some 0) [])"
    by (simp add: init_indexer_def stopped_def)
  have h3: "\<not> stopped (init_indexer None None [])"
    by (simp add: init_indexer_def stopped_def)
  note th = cancellation_latency [OF h1 h2, where r = "''/''" and f = "readable ''a''"
      and fs = "[readable ''b'']" and items = "[(''/x'', [], [readable ''c''])]"
      and ds = "[nine_and_one]" and dirs = "[]" and d = nine_and_one
      and ?s1.0 = "init_indexer None None []"]
  from th have 1: "\<exists>k\<le>3. and_then (and_then (index_files ''/'' [readable ''a'', readable ''b'']
                                     (init_indexer None (Some 1) []))
                                  (index_dirs [(''/x'', [], [readable ''c''])]))
                        (index_drives [nine_and_one])
               = and_then (index_files ''/'' [readable ''a''] (init_indexer None (Some 1) []))
                          (\<lambda>s1. Inr (s1\<lparr>clock := clock s1 + k\<rparr>))"
    by (rule conjunct1)
  have 2: "map (\<lambda>r. name (snd r))
         (db (state_of (and_then (and_then (index_files ''/'' [readable ''a'', readable ''b'']
                                              (init_indexer None (Some 1) []))
                                           (index_dirs [(''/x'', [], [readable ''c''])]))
                                 (index_drives [nine_and_one])))) = [''a'']"
    by code_simp
  from th have r1: "index_dirs [(''/x'', [], [readable ''c''])] (init_indexer None (Some 0) [])
       = Inr (if [(''/x'', [] :: string list, [readable ''c''])] = []
              then init_indexer None (Some 0) [] else tick (init_indexer None (Some 0) []))"
    by (elim conjE) assumption
  from th have r2: "index_drives [nine_and_one] (init_indexer None (Some 0) [])
       = Inr (if [nine_and_one] = []
              then init_indexer None (Some 0) [] else tick (init_indexer None (Some 0) []))"
    by (elim conjE) assumption
  from th have r3: "\<not> stopped (init_indexer None None []) \<longrightarrow>
       index_dirs [(''/'', [], [readable ''b'']), (''/x'', [], [readable ''c''])]
         (init_indexer None None [])
       = and_then (index_files ''/'' [readable ''b''] (tick (init_indexer None None [])))
                  (index_dirs [(''/x'', [], [readable ''c''])])"
    by (elim conjE) assumption
  from r1 have 3: "index_dirs [(''/x'', [], [readable ''c''])] (init_indexer None (Some 0) [])
       = Inr (tick (init_indexer None (Some 0) []))"
    by (simp only: list.distinct if_False)
  from r2 have 4: "index_drives [nine_and_one] (init_indexer None (Some 0) [])
       = Inr (tick (init_indexer None (Some 0) []))"
    by (simp only: list.distinct if_False)
  from r3 h3 have 5: "index_dirs [(''/'', [], [readable ''b'']), (''/x'', [], [readable ''c''])]
         (init_indexer None None [])
       = and_then (index_files ''/'' [readable ''b''] (tick (init_indexer None None [])))
                  (index_dirs [(''/x'', [], [readable ''c''])])"
    by (rule mp)
  from h1 h2 h3 1 2 3 4 5 show ?thesis by (intro conjI)
qed

text \<open>
  C8, as stated, fails: when the only root cannot be listed, no directory is sampled and no
  file is seen, and the estimate is 10000, where the larger of the floor and the product
  with an average of no files is 1000.
\<close>

theorem estimate_without_samples_is_default:
  "sample_drives [Unlistable ''/''] (0, 0) = (0, 0)
   \<and> estimated_total [Unlistable ''/''] = 10000
   \<and> max 1000 (py_int (py_fmul (py_truediv 0 (max 1 0))
                                 (py_float (estimate_dir_count [Unlistable ''/''])))) = 1000"
  by code_simp

text \<open>
  C8, amended. The estimate is at least 1000 for every environment. It is computed from at
  most 20 sampled directories (and the directory estimate from at most 10): when at least
  one directory was sampled it is the larger of 1000 and the truncated product of the
  average file count per sampled directory and the estimated directory count; when none
  could be sampled it is the fixed default 10000. No loop of the walk changes it, so the
  state a session ends in, also one that an exception aborts, still holds the value computed
  at its start.
\<close>

theorem estimate_floor_and_fixed:
  "1000 \<le> estimated_total env
   \<and> (case sample_drives env (0, 0) of (sample_size, file_count) \<Rightarrow>
         0 \<le> sample_size \<and> sample_size \<le> 20
         \<and> estimated_total env =
             (if 0 < sample_size
              then max 1000 (py_int (py_fmul (py_truediv file_count sample_size)
                                             (py_float (estimate_dir_count env))))
              else 10000))
   \<and> (case count_drives env (0, 0) of (sample_size, dir_count) \<Rightarrow>
         0 \<le> sample_size \<and> sample_size \<le> 10)
   \<and> total_files_estimated (state_of (index_files r fs st)) = total_files_estimated st
   \<and> total_files_estimated (state_of (index_dirs items st)) = total_files_estimated st
   \<and> total_files_estimated (state_of (index_drives ds st)) = total_files_estimated st
   \<and> (case run (Inr t) failing cancel env of
        OpenFailed x \<Rightarrow> False
      | Aborted x s \<Rightarrow> total_files_estimated s = estimated_total env
      | Ended s \<Rightarrow> total_files_estimated s = estimated_total env)
   \<and> (failing = None \<and> quiet env \<longrightarrow> (\<exists>s. run (Inr t) failing cancel env = Ended s))"
proof (intro conjI)
  show "1000 \<le> estimated_total env" by (rule estimated_total_floor)
  obtain ss fc where sd: "sample_drives env (0, 0) = (ss, fc)" by (cases "sample_drives env (0, 0)")
  have "0 \<le> ss \<and> ss \<le> 20" using sample_drives_bound [of "(0, 0)" env] by (simp add: sd)
  moreover have "estimated_total env =
             (if 0 < ss
              then max 1000 (py_int (py_fmul (py_truediv fc ss)
                                             (py_float (estimate_dir_count env))))
              else 10000)"
    by (simp add: estimated_total_def sd Let_def max_def)
  ultimately show "case sample_drives env (0, 0) of (sample_size, file_count) \<Rightarrow>
         0 \<le> sample_size \<and> sample_size \<le> 20
         \<and> estimated_total env =
             (if 0 < sample_size
              then max 1000 (py_int (py_fmul (py_truediv file_count sample_size)
                                             (py_float (estimate_dir_count env))))
              else 10000)"
    by (simp add: sd)
  show "case count_drives env (0, 0) of (sample_size, dir_count) \<Rightarrow>
         0 \<le> sample_size \<and> sample_size \<le> 10"
    using count_drives_bound [of "(0, 0)" env] by (auto split: prod.splits)
  show "total_files_estimated (state_of (index_files r fs st)) = total_files_estimated st"
    by (rule index_files_total)
  show "total_files_estimated (state_of (index_dirs items st)) = total_files_estimated st"
    by (rule index_dirs_total)
  show "total_files_estimated (state_of (index_drives ds st)) = total_files_estimated st"
    by (rule index_drives_total)
  have z: "total_files_estimated (state_of (index_drives env (start failing cancel t env)))
             = estimated_total env"
    by (simp add: index_drives_total)
  show "case run (Inr t) failing cancel env of
        OpenFailed x \<Rightarrow> False
      | Aborted x s \<Rightarrow> total_files_estimated s = estimated_total env
      | Ended s \<Rightarrow> total_files_estimated s = estimated_total env"
  proof (cases rule: run_outcome [of t failing cancel env])
    case (aborted x s)
    with z show ?thesis by simp
  next
    case (ended s)
    with z show ?thesis by simp
  qed
  show "failing = None \<and> quiet env \<longrightarrow> (\<exists>s. run (Inr t) failing cancel env = Ended s)"
    using run_ends by blast
qed

theorem estimate_floor_and_fixed_witness:
  "quiet [twelve_files]
   \<and> estimated_total [twelve_files] = 1200
   \<and> sample_drives [twelve_files] (0, 0) = (1, 12)
   \<and> estimate_dir_count [twelve_files] = 100
   \<and> (\<exists>s. run (Inr []) None (Some 5) [twelve_files] = Ended s \<and> total_files_estimated s = 1200)"
proof -
  have e: "estimated_total [twelve_files] = 1200" by code_simp
  have d: "sample_drives [twelve_files] (0, 0) = (1, 12)" by code_simp
  have c: "estimate_dir_count [twelve_files] = 100" by code_simp
  note q = quiet_twelve_files
  note th = estimate_floor_and_fixed [where env = "[twelve_files]" and r = "''/''" and fs = "[]"
      and st = "init_indexer None None []" and items = "[]" and ds = "[]" and t = "[]"
      and failing = None and cancel = "Some 5"]
  from th q obtain s where s: "run (Inr []) None (Some 5) [twelve_files] = Ended s" by blast
  from th have "case run (Inr []) None (Some 5) [twelve_files] of
        OpenFailed x \<Rightarrow> False
      | Aborted x s \<Rightarrow> total_files_estimated s = estimated_total [twelve_files]
      | Ended s \<Rightarrow> total_files_estimated s = estimated_total [twelve_files]"
    by blast
  with s e have "total_files_estimated s = 1200" by simp
  with s q e d c show ?thesis by blast
qed

text \<open>
  C9. When the text of the input field is empty after trimming, \<^verbatim>\<open>search\<close> clears the result
  list, hides the result container and returns: no statement is sent to the store, whatever
  state the store is in, and the status label shows no error.
\<close>

theorem empty_fragment_no_query:
  assumes "strip text_input = []"
  shows "search store text_input ui = ui\<lparr>results_list := [], results_visible := False\<rparr>
       \<and> results_list (search store text_input ui) = []
       \<and> executed (search store text_input ui) = executed ui
       \<and> status_label (search store text_input ui) = status_label ui"
  using assms by (simp add: search_def Let_def)

theorem empty_fragment_no_query_witness:
  "strip [] = []
   \<and> results_list (search (Inl (SqliteError ''unable to open database file'')) [] fresh_bar) = []
   \<and> executed (search (Inl (SqliteError ''unable to open database file'')) [] fresh_bar) = []
   \<and> status_label (search (Inl (SqliteError ''unable to open database file'')) [] fresh_bar)
       = NoStatus"
proof -
  have h: "strip [] = []" by (simp add: strip_def)
  from empty_fragment_no_query [OF h, of "Inl (SqliteError ''unable to open database file'')" fresh_bar]
  show ?thesis using h by (simp add: fresh_bar_def)
qed

text \<open>
  C3, as stated, fails: the non-empty fragment \<^verbatim>\<open>%\<close> returns a row whose name does not
  contain it.
\<close>

theorem percent_fragment_matches_everything:
  "results_list (search (Inr [(1, named ''readme'')]) ''%'' fresh_bar) = [(''readme'', ''/readme'', [])]
   \<and> \<not> ci_contains ''%'' ''readme''"
  by code_simp

text \<open>
  C3, amended. For a fragment that is non-empty after trimming and contains neither \<^verbatim>\<open>%\<close>
  nor \<^verbatim>\<open>_\<close>, the result is the list of the rows whose name contains the fragment up to
  ASCII case (name only, never the path), in ascending order of name, cut after the first
  100 rows; one statement is sent to the store.
\<close>

theorem query_matches_sorted_bounded:
  assumes "strip text_input = q" and "q \<noteq> []" and "wildcard_free q"
  shows "results_list (search (Inr t) text_input ui) =
           take 100 (sort_key fst (map columns (filter (\<lambda>r. ci_contains q (name (snd r))) t)))
       \<and> sorted (map fst (results_list (search (Inr t) text_input ui)))
       \<and> length (results_list (search (Inr t) text_input ui)) \<le> 100
       \<and> executed (search (Inr t) text_input ui) = executed ui @ [''%'' @ q @ ''%'']
       \<and> (\<forall>n. ci_contains q n \<longleftrightarrow>
              (\<exists>pre post. map sqlite_lower n = pre @ map sqlite_lower q @ post))"
proof -
  from assms have ne: "strip text_input \<noteq> []" by simp
  have r: "results_list (search (Inr t) text_input ui) =
           take 100 (sort_key fst (map columns (filter (\<lambda>r. ci_contains q (name (snd r))) t)))"
    using search_results(1) [OF ne, of t ui] by (simp add: assms(1) like_contains [OF assms(3), simplified])
  have "sorted (map fst (sort_key fst (map columns (filter (\<lambda>r. ci_contains q (name (snd r))) t))))"
    by (rule sorted_sort_key)
  then have s: "sorted (map fst (results_list (search (Inr t) text_input ui)))"
    unfolding r take_map [symmetric] by (rule sorted_wrt_take)
  have l: "length (results_list (search (Inr t) text_input ui)) \<le> 100"
    unfolding r by simp
  have e: "executed (search (Inr t) text_input ui) = executed ui @ [''%'' @ q @ ''%'']"
    using search_results(2) [OF ne, of t ui] by (simp add: assms(1))
  from r s l e ci_contains_iff [of q] show ?thesis by blast
qed

theorem query_matches_sorted_bounded_witness:
  "strip '' invoice '' = ''invoice'' \<and> ''invoice'' \<noteq> [] \<and> wildcard_free ''invoice''
   \<and> results_list (search (Inr invoices) '' invoice '' fresh_bar) =
        [(''Invoice2023.pdf'', ''/Invoice2023.pdf'', ''.pdf''),
         (''invoice_old.txt'', ''/invoice_old.txt'', ''.txt'')]"
proof -
  have h1: "strip '' invoice '' = ''invoice''" by code_simp
  have h2: "''invoice'' \<noteq> []" by simp
  have h3: "wildcard_free ''invoice''" by code_simp
  have v: "take 100 (sort_key fst (map columns
             (filter (\<lambda>r. ci_contains ''invoice'' (name (snd r))) invoices))) =
        [(''Invoice2023.pdf'', ''/Invoice2023.pdf'', ''.pdf''),
         (''invoice_old.txt'', ''/invoice_old.txt'', ''.txt'')]"
    by code_simp
  from query_matches_sorted_bounded [OF h1 h2 h3, of invoices fresh_bar]
  have "results_list (search (Inr invoices) '' invoice '' fresh_bar) =
      take 100 (sort_key fst (map columns
             (filter (\<lambda>r. ci_contains ''invoice'' (name (snd r))) invoices)))"
    by (rule conjunct1)
  with v h1 h2 h3 show ?thesis by (simp only: simp_thms)
qed

text \<open>
  C10. The fragment goes unescaped into the pattern: the fragment \<^verbatim>\<open>a_c\<close> matches the name
  \<^verbatim>\<open>abc\<close>, which does not contain it, and the query returns that row.
\<close>

theorem like_wildcards_match_beyond_containment:
  "\<not> wildcard_free ''a_c''
   \<and> like (''%'' @ ''a_c'' @ ''%'') ''abc''
   \<and> \<not> ci_contains ''a_c'' ''abc''
   \<and> results_list (search (Inr [(1, named ''abc'')]) ''a_c'' fresh_bar) = [(''abc'', ''/abc'', [])]"
  by code_simp

end
